theory Spec2Isabelle
  imports Complex_Main "HOL-Library.Multiset"
begin

section \<open>Data model (types.ts, constants.ts)\<close>

text \<open>
  \<open>ColorType\<close> is a string enum; its members are compared by identity of their
  hex strings, which are pairwise different, so a datatype models it. \<open>hexOf\<close> gives
  the enum's string values, used where the source interpolates a colour into a key.
\<close>

datatype ColorType = GREEN | RED | BLUE | YELLOW | PINK | WHITE | BLACK | GRAY | MAGENTA

fun hexOf :: "ColorType \<Rightarrow> string" where
  "hexOf GREEN = ''#22c55e''"
| "hexOf RED = ''#ef4444''"
| "hexOf BLUE = ''#3b82f6''"
| "hexOf YELLOW = ''#eab308''"
| "hexOf PINK = ''#f472b6''"
| "hexOf WHITE = ''#ffffff''"
| "hexOf BLACK = ''#171717''"
| "hexOf GRAY = ''#71717a''"
| "hexOf MAGENTA = ''#d946ef''"

datatype Direction = Up | Down | Left | Right

datatype Status = Playing | Won | Lost

text \<open>
  The six facings of the cube. The fields \<open>top\<close> and \<open>back\<close> of the source are
  named \<open>top_face\<close> and \<open>back_face\<close> here: \<open>top\<close> is the greatest element of a
  lattice in HOL, and \<open>back\<close> is a keyword of the proof language.
\<close>

record CubeOrientation =
  top_face :: ColorType
  bottom :: ColorType
  front :: ColorType
  back_face :: ColorType
  left :: ColorType
  right :: ColorType

type_synonym Grid = "ColorType list list"

text \<open>
  JavaScript numbers that only ever hold integers (coordinates, counters, scores)
  are modelled as \<open>int\<close>. The optional fields are \<open>None\<close> when undefined.
\<close>

record GameState =
  initialGrid :: Grid
  grid :: Grid
  cubePosition :: "int \<times> int"
  cubeFaces :: CubeOrientation
  moves :: int
  matchedCount :: int
  status :: Status
  highScore :: int
  aiComparisonScore :: "int option"
  aiComparisonMoves :: "int option"

definition GRID_SIZE :: int where
  "GRID_SIZE = 5"

definition START_POS :: "int \<times> int" where
  "START_POS = (2, 2)"

definition ALL_COLORS :: "ColorType list" where
  "ALL_COLORS = [GREEN, RED, BLUE, YELLOW, PINK, WHITE]"

definition INITIAL_CUBE_FACES :: CubeOrientation where
  "INITIAL_CUBE_FACES =
     \<lparr> top_face = WHITE, bottom = PINK, front = RED, back_face = BLUE,
       left = GREEN, right = YELLOW \<rparr>"

section \<open>Orientation model\<close>

text \<open>
  \<open>rotateOrientation\<close> copies the orientation and overwrites four facings from the
  old value, one branch of the if-chain per direction.
\<close>

fun rotateOrientation :: "CubeOrientation \<Rightarrow> Direction \<Rightarrow> CubeOrientation" where
  "rotateOrientation c Up =
     c\<lparr> top_face := back_face c, front := top_face c, bottom := front c, back_face := bottom c \<rparr>"
| "rotateOrientation c Down =
     c\<lparr> top_face := front c, front := bottom c, bottom := back_face c, back_face := top_face c \<rparr>"
| "rotateOrientation c Left =
     c\<lparr> top_face := right c, right := bottom c, bottom := left c, left := top_face c \<rparr>"
| "rotateOrientation c Right =
     c\<lparr> top_face := left c, left := bottom c, bottom := right c, right := top_face c \<rparr>"

text \<open>The template string \<open>`${o.top}-${o.front}`\<close>.\<close>

definition getOrientationKey :: "CubeOrientation \<Rightarrow> string" where
  "getOrientationKey c = hexOf (top_face c) @ ''-'' @ hexOf (front c)"

text \<open>The orientations the cube can take: the fixed start, closed under rolling.\<close>

inductive reachable :: "CubeOrientation \<Rightarrow> bool" where
  reachable_init: "reachable INITIAL_CUBE_FACES"
| reachable_rot: "reachable c \<Longrightarrow> reachable (rotateOrientation c d)"

section \<open>Reading the grid\<close>

text \<open>
  \<open>a[i]\<close> on a JavaScript array is \<open>undefined\<close> (here \<open>None\<close>) outside the
  array; \<open>g[y][x]\<close> throws a TypeError when the row \<open>g[y]\<close> is undefined.
\<close>

datatype error = TypeError | SparseRow

definition jsIndex :: "'a list \<Rightarrow> int \<Rightarrow> 'a option" where
  "jsIndex xs i = (if 0 \<le> i \<and> i < int (length xs) then Some (xs ! nat i) else None)"

definition tileAt :: "Grid \<Rightarrow> int \<Rightarrow> int \<Rightarrow> error + ColorType option" where
  "tileAt g x y = (case jsIndex g y of None \<Rightarrow> Inl TypeError | Some row \<Rightarrow> Inr (jsIndex row x))"

text \<open>
  The test shared by the solver and the roll transition:
  \<open>tile !== BLACK && tile !== GRAY && bottom === tile\<close>. An undefined tile is
  different from every colour, so the last conjunct fails for it.
\<close>

definition matches :: "ColorType option \<Rightarrow> ColorType \<Rightarrow> bool" where
  "matches tile b = (case tile of None \<Rightarrow> False | Some t \<Rightarrow> t \<noteq> BLACK \<and> t \<noteq> GRAY \<and> b = t)"

section \<open>Path solver: the breadth-first search of \<open>findPath\<close>\<close>

record Node =
  nodeX :: int
  nodeY :: int
  faces :: CubeOrientation
  path :: "Direction list"

text \<open>
  The visited set holds the strings \<open>`${x},${y},${key}`\<close>. Neither a decimal
  numeral nor an orientation key contains a comma, so the string determines the triple
  of its parts, which stands for it here.
\<close>

type_synonym Key = "int \<times> int \<times> string"

text \<open>
  One turn of the loop over the four directions, for the node \<open>cur\<close> taken from the
  queue: the pair is the visited set and the queue.
\<close>

definition visitNext :: "Node \<Rightarrow> Key set \<times> Node list \<Rightarrow> Direction \<Rightarrow> Key set \<times> Node list" where
  "visitNext cur vq dir =
     (let (nx, ny) = (case dir of
                        Up \<Rightarrow> (nodeX cur, nodeY cur + 1)
                      | Down \<Rightarrow> (nodeX cur, nodeY cur - 1)
                      | Left \<Rightarrow> (nodeX cur - 1, nodeY cur)
                      | Right \<Rightarrow> (nodeX cur + 1, nodeY cur))
      in if nx < 0 \<or> nx \<ge> GRID_SIZE \<or> ny < 0 \<or> ny \<ge> GRID_SIZE then vq
         else
           let nextFaces = rotateOrientation (faces cur) dir;
               key = (nx, ny, getOrientationKey nextFaces)
           in if key \<notin> fst vq
              then (insert key (fst vq),
                    snd vq @ [\<lparr> nodeX = nx, nodeY = ny, faces = nextFaces,
                               path = path cur @ [dir] \<rparr>])
              else vq)"

text \<open>Every key the loop can add lies in this finite set, which bounds the search.\<close>

definition allKeys :: "Key set" where
  "allKeys = (\<lambda>(x, y, t, f). (x, y, hexOf t @ ''-'' @ hexOf f)) `
               ({0..<5} \<times> {0..<5} \<times> UNIV \<times> UNIV)"

definition searchSize :: "Key set \<times> Node list \<Rightarrow> nat" where
  "searchSize vq = 2 * card (allKeys - fst vq) + length (snd vq)"

lemma ColorType_UNIV: "(UNIV :: ColorType set) = {GREEN, RED, BLUE, YELLOW, PINK, WHITE, BLACK, GRAY, MAGENTA}"
  by (auto intro: ColorType.exhaust)

lemma finite_allKeys: "finite allKeys"
proof -
  have "finite (UNIV :: ColorType set)"
    by (simp add: ColorType_UNIV)
  then show ?thesis
    unfolding allKeys_def by (intro finite_imageI finite_cartesian_product) simp_all
qed

lemma searchSize_insert:
  assumes "k \<in> allKeys" "k \<notin> v"
  shows "searchSize (insert k v, q @ [n]) < searchSize (v, n0 # q)"
proof -
  have fin: "finite (allKeys - v)"
    using finite_allKeys by simp
  have mem: "k \<in> allKeys - v"
    using assms by simp
  have "allKeys - insert k v = (allKeys - v) - {k}"
    by auto
  then have "card (allKeys - insert k v) = card (allKeys - v) - 1"
    using fin mem by simp
  moreover have "0 < card (allKeys - v)"
    using fin mem by (auto simp: card_gt_0_iff)
  ultimately show ?thesis
    by (simp add: searchSize_def)
qed

lemma visitNext_searchSize:
  "searchSize (visitNext cur vq dir) \<le> searchSize vq"
proof -
  obtain v q where vq: "vq = (v, q)"
    by (cases vq)
  have "searchSize (insert k v, q @ [n]) \<le> searchSize (v, q)"
    if "k \<in> allKeys" "k \<notin> v" for k n
    using searchSize_insert [OF that, of q n n] by (simp add: searchSize_def)
  moreover have "(nx, ny, getOrientationKey c) \<in> allKeys"
    if "0 \<le> nx" "nx < 5" "0 \<le> ny" "ny < 5" for nx ny c
    unfolding allKeys_def getOrientationKey_def using that
    by (intro image_eqI [where x = "(nx, ny, top_face c, front c)"]) simp_all
  ultimately show ?thesis
    unfolding vq visitNext_def GRID_SIZE_def
    by (cases dir) (simp_all add: Let_def not_le not_less)
qed

lemma foldl_visitNext_searchSize:
  "searchSize (foldl (visitNext cur) vq dirs) \<le> searchSize vq"
proof (induction dirs arbitrary: vq)
  case Nil
  show ?case by simp
next
  case (Cons d ds)
  have "searchSize (foldl (visitNext cur) (visitNext cur vq d) ds)
          \<le> searchSize (visitNext cur vq d)"
    by (rule Cons.IH)
  also have "\<dots> \<le> searchSize vq"
    by (rule visitNext_searchSize)
  finally show ?case by simp
qed

text \<open>
  The \<open>while (queue.length > 0)\<close> loop: take the first node, return its path when
  its tile matches its bottom face, drop it when its path is longer than 15, and
  otherwise visit its four neighbours in the order up, down, left, right.
\<close>

function findPathLoop :: "Grid \<Rightarrow> Key set \<times> Node list \<Rightarrow> error + Direction list option" where
  "findPathLoop g (visited, []) = Inr None"
| "findPathLoop g (visited, cur # queue) =
     (case tileAt g (nodeX cur) (nodeY cur) of
        Inl e \<Rightarrow> Inl e
      | Inr tile \<Rightarrow>
          if matches tile (bottom (faces cur)) then Inr (Some (path cur))
          else if length (path cur) > 15 then findPathLoop g (visited, queue)
          else findPathLoop g (foldl (visitNext cur) (visited, queue) [Up, Down, Left, Right]))"
  by pat_completeness auto
termination
proof (relation "measure (\<lambda>(g, vq). searchSize vq)")
  show "wf (measure (\<lambda>(g, vq). searchSize vq))"
    by simp
next
  fix g :: Grid and visited :: "Key set" and cur :: Node and queue :: "Node list"
  show "((g, visited, queue), (g, visited, cur # queue)) \<in> measure (\<lambda>(g, vq). searchSize vq)"
    by (simp add: searchSize_def)
next
  fix g :: Grid and visited :: "Key set" and cur :: Node and queue :: "Node list"
  have "searchSize (foldl (visitNext cur) (visited, queue) [Up, Down, Left, Right])
          \<le> searchSize (visited, queue)"
    by (rule foldl_visitNext_searchSize)
  also have "\<dots> < searchSize (visited, cur # queue)"
    by (simp add: searchSize_def)
  finally show "((g, foldl (visitNext cur) (visited, queue) [Up, Down, Left, Right]),
                 (g, visited, cur # queue)) \<in> measure (\<lambda>(g, vq). searchSize vq)"
    by simp
qed

definition findPath :: "Grid \<Rightarrow> int \<Rightarrow> int \<Rightarrow> CubeOrientation \<Rightarrow> error + Direction list option" where
  "findPath g startX startY startF =
     findPathLoop g ({(startX, startY, getOrientationKey startF)},
                     [\<lparr> nodeX = startX, nodeY = startY, faces = startF, path = [] \<rparr>])"

section \<open>Paths over the grid\<close>

text \<open>
  A cube state is a position with an orientation. \<open>rollTo\<close> is the update the source
  writes out at every place where the cube moves: one step in the direction, and the
  rotation. \<open>walk\<close> follows a sequence of directions and is defined as long as the
  cube stays on the grid.
\<close>

type_synonym CubeState = "int \<times> int \<times> CubeOrientation"

fun rollTo :: "CubeState \<Rightarrow> Direction \<Rightarrow> CubeState" where
  "rollTo (x, y, c) Up = (x, y + 1, rotateOrientation c Up)"
| "rollTo (x, y, c) Down = (x, y - 1, rotateOrientation c Down)"
| "rollTo (x, y, c) Left = (x - 1, y, rotateOrientation c Left)"
| "rollTo (x, y, c) Right = (x + 1, y, rotateOrientation c Right)"

fun inGrid :: "CubeState \<Rightarrow> bool" where
  "inGrid (x, y, c) = (0 \<le> x \<and> x < GRID_SIZE \<and> 0 \<le> y \<and> y < GRID_SIZE)"

fun walk :: "CubeState \<Rightarrow> Direction list \<Rightarrow> CubeState option" where
  "walk s [] = Some s"
| "walk s (d # ds) = (if inGrid (rollTo s d) then walk (rollTo s d) ds else None)"

text \<open>The goal test of the search, on a cube state.\<close>

fun isGoal :: "Grid \<Rightarrow> CubeState \<Rightarrow> bool" where
  "isGoal g (x, y, c) = (case tileAt g x y of Inl e \<Rightarrow> False | Inr tile \<Rightarrow> matches tile (bottom c))"

definition nodeState :: "Node \<Rightarrow> CubeState" where
  "nodeState n = (nodeX n, nodeY n, faces n)"

fun keyOf :: "CubeState \<Rightarrow> Key" where
  "keyOf (x, y, c) = (x, y, getOrientationKey c)"

fun mkNode :: "CubeState \<Rightarrow> Direction list \<Rightarrow> Node" where
  "mkNode (x, y, c) p = \<lparr> nodeX = x, nodeY = y, faces = c, path = p \<rparr>"

lemma nodeState_mkNode [simp]: "nodeState (mkNode s p) = s"
  by (cases s) (simp add: nodeState_def)

lemma path_mkNode [simp]: "path (mkNode s p) = p"
  by (cases s) simp

lemma walk_append:
  "walk s (p @ q) = (case walk s p of None \<Rightarrow> None | Some s' \<Rightarrow> walk s' q)"
  by (induction p arbitrary: s) simp_all

lemma walk_snoc:
  "walk s p = Some s' \<Longrightarrow> walk s (p @ [d]) = (if inGrid (rollTo s' d) then Some (rollTo s' d) else None)"
  by (simp add: walk_append)

lemma visitNext_rollTo:
  "visitNext cur (v, q) d =
     (if \<not> inGrid (rollTo (nodeState cur) d) then (v, q)
      else if keyOf (rollTo (nodeState cur) d) \<in> v then (v, q)
      else (insert (keyOf (rollTo (nodeState cur) d)) v,
            q @ [mkNode (rollTo (nodeState cur) d) (path cur @ [d])]))"
  by (cases d) (auto simp: visitNext_def nodeState_def Let_def)

section \<open>Soundness of the search\<close>

text \<open>
  Every node of the queue carries the path that leads to it from the start, of at most
  16 moves, and no state strictly before its end is a goal: each was taken from the queue
  and failed the goal test before its successors were added.
\<close>

definition sound :: "Grid \<Rightarrow> CubeState \<Rightarrow> Node \<Rightarrow> bool" where
  "sound g s0 n \<longleftrightarrow>
     walk s0 (path n) = Some (nodeState n) \<and> length (path n) \<le> 16 \<and>
     (\<forall>k < length (path n). \<exists>s. walk s0 (take k (path n)) = Some s \<and> \<not> isGoal g s)"

lemma sound_child:
  assumes cur: "sound g s0 cur" and ng: "\<not> isGoal g (nodeState cur)"
    and len: "length (path cur) \<le> 15" and ins: "inGrid (rollTo (nodeState cur) d)"
  shows "sound g s0 (mkNode (rollTo (nodeState cur) d) (path cur @ [d]))"
proof -
  have w: "walk s0 (path cur) = Some (nodeState cur)"
    using cur by (simp add: sound_def)
  have pre: "\<exists>s. walk s0 (take k (path cur @ [d])) = Some s \<and> \<not> isGoal g s"
    if "k < length (path cur @ [d])" for k
  proof (cases "k < length (path cur)")
    case True
    then show ?thesis using cur by (simp add: sound_def)
  next
    case False
    then have "take k (path cur @ [d]) = path cur"
      using that by simp
    then show ?thesis using w ng by simp
  qed
  show ?thesis
    unfolding sound_def using walk_snoc [OF w, of d] ins len pre by simp
qed

lemma sound_visitNext:
  assumes "sound g s0 cur" "\<not> isGoal g (nodeState cur)" "length (path cur) \<le> 15"
    and "\<forall>n \<in> set (snd vq). sound g s0 n"
  shows "\<forall>n \<in> set (snd (visitNext cur vq d)). sound g s0 n"
proof -
  obtain v q where vq: "vq = (v, q)"
    by (cases vq)
  show ?thesis
    using assms sound_child [OF assms(1-3), of d]
    by (auto simp: vq visitNext_rollTo)
qed

lemma sound_foldl:
  assumes "sound g s0 cur" "\<not> isGoal g (nodeState cur)" "length (path cur) \<le> 15"
  shows "\<forall>n \<in> set (snd vq). sound g s0 n \<Longrightarrow>
         \<forall>n \<in> set (snd (foldl (visitNext cur) vq dirs)). sound g s0 n"
proof (induction dirs arbitrary: vq)
  case Nil
  then show ?case by simp
next
  case (Cons d ds)
  have "\<forall>n \<in> set (snd (visitNext cur vq d)). sound g s0 n"
    by (rule sound_visitNext [OF assms Cons.prems])
  then show ?case
    using Cons.IH by simp
qed

lemma findPathLoop_sound:
  "\<forall>n \<in> set (snd vq). sound g s0 n \<Longrightarrow> findPathLoop g vq = Inr (Some p) \<Longrightarrow>
   \<exists>n. sound g s0 n \<and> path n = p \<and> isGoal g (nodeState n)"
proof (induction g vq rule: findPathLoop.induct)
  case (1 g visited)
  then show ?case by simp
next
  case (2 g visited cur queue)
  from "2.prems"(2) obtain tile where tile: "tileAt g (nodeX cur) (nodeY cur) = Inr tile"
    by (auto split: sum.splits)
  have cur: "sound g s0 cur" and rest: "\<forall>n \<in> set (snd (visited, queue)). sound g s0 n"
    using "2.prems"(1) by simp_all
  show ?case
  proof (cases "matches tile (bottom (faces cur))")
    case True
    then have "path cur = p" "isGoal g (nodeState cur)"
      using "2.prems"(2) tile by (simp_all add: nodeState_def)
    then show ?thesis using cur by blast
  next
    case False
    then have ng: "\<not> isGoal g (nodeState cur)"
      using tile by (simp add: nodeState_def)
    show ?thesis
    proof (cases "length (path cur) > 15")
      case True
      then show ?thesis
        using "2.IH"(1) [OF tile False True rest] "2.prems"(2) tile False by simp
    next
      case long: False
      then have len: "length (path cur) \<le> 15" by simp
      have "\<forall>n \<in> set (snd (foldl (visitNext cur) (visited, queue) [Up, Down, Left, Right])). sound g s0 n"
        by (rule sound_foldl [OF cur ng len rest])
      then show ?thesis
        using "2.IH"(2) [OF tile False long] "2.prems"(2) tile False long by simp
    qed
  qed
qed

lemma findPath_sound:
  assumes "findPath g x y c = Inr (Some p)"
  shows "\<exists>s. walk (x, y, c) p = Some s \<and> isGoal g s \<and> length p \<le> 16 \<and>
           (\<forall>k < length p. \<exists>s'. walk (x, y, c) (take k p) = Some s' \<and> \<not> isGoal g s')"
proof -
  have "\<forall>n \<in> set (snd ({(x, y, getOrientationKey c)}, [\<lparr> nodeX = x, nodeY = y, faces = c, path = [] \<rparr>])).
          sound g (x, y, c) n"
    by (simp add: sound_def nodeState_def)
  from findPathLoop_sound [OF this] assms obtain n
    where "sound g (x, y, c) n" "path n = p" "isGoal g (nodeState n)"
    unfolding findPath_def by blast
  then show ?thesis
    unfolding sound_def by auto
qed

section \<open>The reference simulation \<open>simulateAiStats\<close>\<close>

text \<open>
  The assignment \<open>gridCopy[y][x] = t\<close>. It throws a TypeError when the row is
  undefined and replaces the element when \<open>x\<close> indexes the row. Outside the row
  JavaScript would grow the array, leaving holes, or attach a property: a row that the
  lists of this model do not represent, reported as \<open>SparseRow\<close>. The simulation
  never gets there (\<open>setTile_goal\<close> below).
\<close>

definition setTile :: "Grid \<Rightarrow> int \<Rightarrow> int \<Rightarrow> ColorType \<Rightarrow> error + Grid" where
  "setTile g x y t =
     (case jsIndex g y of
        None \<Rightarrow> Inl TypeError
      | Some row \<Rightarrow>
          if 0 \<le> x \<and> x < int (length row) then Inr (g[nat y := row[nat x := t]])
          else Inl SparseRow)"

text \<open>
  The body of \<open>for (const dir of path)\<close>: rotate the faces, then move the position,
  with no bounds check.
\<close>

definition advance :: "(int \<times> int) \<times> CubeOrientation \<Rightarrow> Direction \<Rightarrow> (int \<times> int) \<times> CubeOrientation" where
  "advance pf dir =
     (let currentFaces = rotateOrientation (snd pf) dir;
          currentPos = (case dir of
                          Up \<Rightarrow> (fst (fst pf), snd (fst pf) + 1)
                        | Down \<Rightarrow> (fst (fst pf), snd (fst pf) - 1)
                        | Left \<Rightarrow> (fst (fst pf) - 1, snd (fst pf))
                        | Right \<Rightarrow> (fst (fst pf) + 1, snd (fst pf)))
      in (currentPos, currentFaces))"

text \<open>The number of tiles that can still be matched; it bounds the simulation.\<close>

definition openTiles :: "Grid \<Rightarrow> nat" where
  "openTiles g = sum_list (map (\<lambda>row. length (filter (\<lambda>t. t \<noteq> BLACK \<and> t \<noteq> GRAY) row)) g)"

lemma advance_rollTo:
  "rollTo (x, y, c) d = (x', y', c') \<Longrightarrow> advance ((x, y), c) d = ((x', y'), c')"
  by (cases d) (auto simp: advance_def)

lemma foldl_advance_walk:
  "walk (x, y, c) p = Some (x', y', c') \<Longrightarrow> foldl advance ((x, y), c) p = ((x', y'), c')"
proof (induction p arbitrary: x y c)
  case Nil
  then show ?case by simp
next
  case (Cons d ds)
  obtain x1 y1 c1 where r: "rollTo (x, y, c) d = (x1, y1, c1)"
    by (cases "rollTo (x, y, c) d")
  with Cons.prems have "walk (x1, y1, c1) ds = Some (x', y', c')"
    by (simp split: if_splits)
  then show ?case
    using Cons.IH advance_rollTo [OF r] by simp
qed

lemma filter_update_less:
  "j < length xs \<Longrightarrow> P (xs ! j) \<Longrightarrow> \<not> P a \<Longrightarrow>
   Suc (length (filter P (xs[j := a]))) = length (filter P xs)"
proof (induction xs arbitrary: j)
  case Nil
  then show ?case by simp
next
  case (Cons z zs)
  show ?case
  proof (cases j)
    case 0
    then show ?thesis using Cons.prems by simp
  next
    case (Suc i)
    then show ?thesis using Cons.prems Cons.IH [of i] by simp
  qed
qed

lemma sum_list_map_update_less:
  fixes f :: "'a \<Rightarrow> nat"
  shows "i < length xs \<Longrightarrow> f r < f (xs ! i) \<Longrightarrow>
         sum_list (map f (xs[i := r])) < sum_list (map f xs)"
proof (induction xs arbitrary: i)
  case Nil
  then show ?case by simp
next
  case (Cons z zs)
  show ?case
  proof (cases i)
    case 0
    then show ?thesis using Cons.prems by simp
  next
    case (Suc k)
    then show ?thesis using Cons.prems Cons.IH [of k] by simp
  qed
qed

lemma setTile_goal:
  assumes "isGoal g (x, y, c)"
  shows "\<exists>g'. setTile g x y BLACK = Inr g' \<and> openTiles g' < openTiles g"
proof -
  from assms obtain tile where t: "tileAt g x y = Inr tile" "matches tile (bottom c)"
    by (auto split: sum.splits)
  then obtain col where col: "tile = Some col" "col \<noteq> BLACK" "col \<noteq> GRAY"
    by (auto simp: matches_def split: option.splits)
  from t(1) col(1) have y: "0 \<le> y" "y < int (length g)"
    and x: "0 \<le> x" "x < int (length (g ! nat y))" and at: "g ! nat y ! nat x = col"
    by (auto simp: tileAt_def jsIndex_def split: option.splits if_splits)
  then have ny: "nat y < length g" and nx: "nat x < length (g ! nat y)"
    by simp_all
  let ?P = "\<lambda>t. t \<noteq> BLACK \<and> t \<noteq> GRAY"
  let ?row = "(g ! nat y)[nat x := BLACK]"
  have "Suc (length (filter ?P ?row)) = length (filter ?P (g ! nat y))"
    using nx at col by (intro filter_update_less) simp_all
  then have "length (filter ?P ?row) < length (filter ?P (g ! nat y))"
    by simp
  then have "openTiles (g[nat y := ?row]) < openTiles g"
    unfolding openTiles_def using ny by (intro sum_list_map_update_less)
  moreover have "setTile g x y BLACK = Inr (g[nat y := ?row])"
    using x y by (simp add: setTile_def jsIndex_def)
  ultimately show ?thesis by blast
qed

text \<open>
  The \<open>while (true)\<close> loop of \<open>simulateAiStats\<close>: search, stop when there is no
  path, otherwise follow the path, blacken the tile reached and count the moves. An empty
  path is an array, hence truthy: the loop goes on with it.
\<close>

function simulateLoop :: "Grid \<Rightarrow> int \<times> int \<Rightarrow> CubeOrientation \<Rightarrow> int \<Rightarrow> error + int" where
  "simulateLoop gridCopy currentPos currentFaces totalMoves =
     (case findPath gridCopy (fst currentPos) (snd currentPos) currentFaces of
        Inl e \<Rightarrow> Inl e
      | Inr None \<Rightarrow> Inr totalMoves
      | Inr (Some p) \<Rightarrow>
          (case foldl advance (currentPos, currentFaces) p of
             (pos, fs) \<Rightarrow>
               (case setTile gridCopy (fst pos) (snd pos) BLACK of
                  Inl e \<Rightarrow> Inl e
                | Inr g' \<Rightarrow> simulateLoop g' pos fs (totalMoves + int (length p)))))"
  by pat_completeness auto
termination
proof (relation "measure (\<lambda>(g, pos, fs, n). openTiles g)")
  show "wf (measure (\<lambda>(g, pos, fs, n). openTiles g))"
    by simp
next
  fix gridCopy :: Grid and currentPos :: "int \<times> int" and currentFaces :: CubeOrientation
    and totalMoves :: int and r p pos fs g'
  assume fp: "findPath gridCopy (fst currentPos) (snd currentPos) currentFaces = Inr r"
    and r: "r = Some p"
    and fo: "(pos, fs) = foldl advance (currentPos, currentFaces) p"
    and st: "setTile gridCopy (fst pos) (snd pos) BLACK = Inr g'"
  from findPath_sound [of gridCopy "fst currentPos" "snd currentPos" currentFaces p] fp r
  obtain s where s: "walk (fst currentPos, snd currentPos, currentFaces) p = Some s" "isGoal gridCopy s"
    by blast
  obtain x y c where xyc: "s = (x, y, c)"
    by (cases s)
  have "foldl advance ((fst currentPos, snd currentPos), currentFaces) p = ((x, y), c)"
    using s(1) unfolding xyc by (rule foldl_advance_walk)
  then have "pos = (x, y)"
    using fo by simp
  then show "((g', pos, fs, totalMoves + int (length p)), (gridCopy, currentPos, currentFaces, totalMoves))
               \<in> measure (\<lambda>(g, pos, fs, n). openTiles g)"
    using setTile_goal [of gridCopy x y c] s(2) st xyc by auto
qed

text \<open>
  The result \<open>{ efficiency, moves }\<close> is the pair \<open>(efficiency, moves)\<close>. The
  source evaluates \<open>Math.floor((25 / totalMoves) * 100)\<close> in double precision; the
  model evaluates the same expression exactly.
\<close>

definition simulateAiStats :: "Grid \<Rightarrow> error + int \<times> int" where
  "simulateAiStats initialGrid0 =
     (case simulateLoop initialGrid0 (fst START_POS, snd START_POS) INITIAL_CUBE_FACES 0 of
        Inl e \<Rightarrow> Inl e
      | Inr totalMoves \<Rightarrow>
          let efficiency = (if totalMoves > 0 then \<lfloor>(25 / real_of_int totalMoves) * 100\<rfloor> else 0)
          in Inr (efficiency, totalMoves))"

section \<open>Game state machine\<close>

text \<open>
  The grid with the tile at \<open>(x, y)\<close> blackened, as the nested \<open>map\<close> over rows
  and columns with their indices builds it.
\<close>

definition markTile :: "Grid \<Rightarrow> int \<Rightarrow> int \<Rightarrow> Grid" where
  "markTile g x y =
     map (\<lambda>(ry, row). map (\<lambda>(rx, col). if int ry = y \<and> int rx = x then BLACK else col)
                            (enumerate 0 row))
         (enumerate 0 g)"

text \<open>
  The state update of \<open>completeRoll\<close> for the roll direction in flight. Sounds, the
  stored high score and the autoplay flag are effects outside the game state; the
  reference simulation runs, and may throw, only in the winning branch.
\<close>

definition completeRoll :: "Direction \<Rightarrow> GameState \<Rightarrow> error + GameState" where
  "completeRoll rollDirection prev =
     (let oldFaces = cubeFaces prev;
          newFaces = rotateOrientation oldFaces rollDirection;
          (x, y) = (case rollDirection of
                      Up \<Rightarrow> (fst (cubePosition prev), snd (cubePosition prev) + 1)
                    | Down \<Rightarrow> (fst (cubePosition prev), snd (cubePosition prev) - 1)
                    | Left \<Rightarrow> (fst (cubePosition prev) - 1, snd (cubePosition prev))
                    | Right \<Rightarrow> (fst (cubePosition prev) + 1, snd (cubePosition prev)))
      in if x < 0 \<or> x \<ge> GRID_SIZE \<or> y < 0 \<or> y \<ge> GRID_SIZE
         then Inr (prev\<lparr> status := Lost \<rparr>)
         else
           let nextMoves = moves prev + 1 in
           case tileAt (grid prev) x y of
             Inl e \<Rightarrow> Inl e
           | Inr currentTileColor \<Rightarrow>
               let hit = matches currentTileColor (bottom newFaces);
                   nextGrid = (if hit then markTile (grid prev) x y else grid prev);
                   nextMatchedCount = (if hit then matchedCount prev + 1 else matchedCount prev);
                   isWon = (nextMatchedCount = GRID_SIZE * GRID_SIZE)
               in if isWon then
                    let userEfficiency = \<lfloor>(25 / real_of_int nextMoves) * 100\<rfloor> in
                    case simulateAiStats (initialGrid prev) of
                      Inl e \<Rightarrow> Inl e
                    | Inr aiStats \<Rightarrow>
                        Inr (prev\<lparr> grid := nextGrid, cubePosition := (x, y),
                                   cubeFaces := newFaces, moves := nextMoves,
                                   matchedCount := nextMatchedCount, status := Won,
                                   highScore := max (highScore prev) userEfficiency,
                                   aiComparisonScore := Some (fst aiStats),
                                   aiComparisonMoves := Some (snd aiStats) \<rparr>)
                  else Inr (prev\<lparr> grid := nextGrid, cubePosition := (x, y),
                                  cubeFaces := newFaces, moves := nextMoves,
                                  matchedCount := nextMatchedCount \<rparr>))"

text \<open>Playing a sequence of directions through \<open>completeRoll\<close>, one roll after the other.\<close>

fun replay :: "GameState \<Rightarrow> Direction list \<Rightarrow> error + GameState" where
  "replay s [] = Inr s"
| "replay s (d # ds) = (case completeRoll d s of Inl e \<Rightarrow> Inl e | Inr s' \<Rightarrow> replay s' ds)"

text \<open>
  The component state that the roll entry point reads and writes, next to the game
  state: whether a roll is animating, and in which direction.
\<close>

record AppState =
  gameState :: GameState
  isRolling :: bool
  rollDirection :: "Direction option"

text \<open>\<open>handleRoll\<close> starts a roll unless one is in flight or the game is over.\<close>

definition handleRoll :: "AppState \<Rightarrow> Direction \<Rightarrow> AppState" where
  "handleRoll app dir =
     (if isRolling app \<or> status (gameState app) \<noteq> Playing then app
      else app\<lparr> rollDirection := Some dir, isRolling := True \<rparr>)"

text \<open>
  The callback \<open>completeRoll\<close> that the cube's animation invokes when it ends: nothing
  without a roll direction; otherwise the state update, and the roll is over.
\<close>

definition onRollComplete :: "AppState \<Rightarrow> error + AppState" where
  "onRollComplete app =
     (case rollDirection app of
        None \<Rightarrow> Inr app
      | Some dir \<Rightarrow>
          (case completeRoll dir (gameState app) of
             Inl e \<Rightarrow> Inl e
           | Inr s \<Rightarrow> Inr (app\<lparr> gameState := s, isRolling := False, rollDirection := None \<rparr>)))"

text \<open>
  The efficiency shown next to the move counter:
  \<open>Math.floor((25 / (gameState.moves || 1)) * 100)\<close>, where \<open>||\<close> replaces a zero
  move count by 1.
\<close>

definition userEfficiency :: "GameState \<Rightarrow> int" where
  "userEfficiency s = \<lfloor>(25 / real_of_int (if moves s = 0 then 1 else moves s)) * 100\<rfloor>"

section \<open>The search written out in \<open>runAiStep\<close>\<close>

text \<open>
  \<open>runAiStep\<close> repeats the search in place, on the live grid and the cube's current
  position and faces. \<open>runAiStepSearch\<close> is the value of \<open>bestPath\<close> after its loop.
\<close>

definition aiVisitNext :: "Node \<Rightarrow> Key set \<times> Node list \<Rightarrow> Direction \<Rightarrow> Key set \<times> Node list" where
  "aiVisitNext current vq dir =
     (let (nx, ny) = (case dir of
                        Up \<Rightarrow> (nodeX current, nodeY current + 1)
                      | Down \<Rightarrow> (nodeX current, nodeY current - 1)
                      | Left \<Rightarrow> (nodeX current - 1, nodeY current)
                      | Right \<Rightarrow> (nodeX current + 1, nodeY current))
      in if nx < 0 \<or> nx \<ge> GRID_SIZE \<or> ny < 0 \<or> ny \<ge> GRID_SIZE then vq
         else
           let nextFaces = rotateOrientation (faces current) dir;
               key = (nx, ny, getOrientationKey nextFaces)
           in if key \<notin> fst vq
              then (insert key (fst vq),
                    snd vq @ [\<lparr> nodeX = nx, nodeY = ny, faces = nextFaces,
                               path = path current @ [dir] \<rparr>])
              else vq)"

lemma aiVisitNext_searchSize:
  "searchSize (foldl (aiVisitNext current) vq dirs) \<le> searchSize vq"
proof -
  have "aiVisitNext current = visitNext current"
    by (intro ext) (simp add: aiVisitNext_def visitNext_def)
  then show ?thesis
    by (simp add: foldl_visitNext_searchSize)
qed

function aiSearchLoop :: "Grid \<Rightarrow> Key set \<times> Node list \<Rightarrow> error + Direction list option" where
  "aiSearchLoop g (visited, []) = Inr None"
| "aiSearchLoop g (visited, current # queue) =
     (case tileAt g (nodeX current) (nodeY current) of
        Inl e \<Rightarrow> Inl e
      | Inr tile \<Rightarrow>
          if matches tile (bottom (faces current)) then Inr (Some (path current))
          else if length (path current) > 15 then aiSearchLoop g (visited, queue)
          else aiSearchLoop g (foldl (aiVisitNext current) (visited, queue) [Up, Down, Left, Right]))"
  by pat_completeness auto
termination
proof (relation "measure (\<lambda>(g, vq). searchSize vq)")
  show "wf (measure (\<lambda>(g, vq). searchSize vq))"
    by simp
next
  fix g :: Grid and visited :: "Key set" and current :: Node and queue :: "Node list"
  show "((g, visited, queue), (g, visited, current # queue)) \<in> measure (\<lambda>(g, vq). searchSize vq)"
    by (simp add: searchSize_def)
next
  fix g :: Grid and visited :: "Key set" and current :: Node and queue :: "Node list"
  have "searchSize (foldl (aiVisitNext current) (visited, queue) [Up, Down, Left, Right])
          \<le> searchSize (visited, queue)"
    by (rule aiVisitNext_searchSize)
  also have "\<dots> < searchSize (visited, current # queue)"
    by (simp add: searchSize_def)
  finally show "((g, foldl (aiVisitNext current) (visited, queue) [Up, Down, Left, Right]),
                 (g, visited, current # queue)) \<in> measure (\<lambda>(g, vq). searchSize vq)"
    by simp
qed

definition runAiStepSearch :: "GameState \<Rightarrow> error + Direction list option" where
  "runAiStepSearch s =
     (let startX = fst (cubePosition s); startY = snd (cubePosition s); startFaces = cubeFaces s
      in aiSearchLoop (grid s)
           ({(startX, startY, getOrientationKey startFaces)},
            [\<lparr> nodeX = startX, nodeY = startY, faces = startFaces, path = [] \<rparr>]))"

section \<open>Board generator\<close>

text \<open>
  The random source is explicit: \<open>rnd i\<close> is the value of the call of
  \<open>Math.random()\<close> made at index \<open>i\<close> of the shuffle loop, a number of \<open>[0, 1)\<close>.
  The loop runs \<open>i\<close> from the last index down to 1 and swaps the elements at \<open>i\<close>
  and \<open>j = floor(random * (i + 1))\<close>; under the contract of \<open>Math.random\<close>,
  \<open>j \<le> i\<close> indexes the pool.
\<close>

fun shuffle :: "(nat \<Rightarrow> real) \<Rightarrow> nat \<Rightarrow> ColorType list \<Rightarrow> ColorType list" where
  "shuffle rnd 0 colorPool = colorPool"
| "shuffle rnd (Suc k) colorPool =
     (let i = Suc k; j = nat \<lfloor>rnd i * real (i + 1)\<rfloor>
      in shuffle rnd k (colorPool[i := colorPool ! j, j := colorPool ! i]))"

text \<open>
  One cell of the nested loops over \<open>y\<close> and \<open>x\<close>: the pair is the row built so far
  and \<open>poolIdx\<close>. The pool has 24 elements and \<open>poolIdx\<close> counts the cells other
  than the start, so the read is always inside the pool.
\<close>

definition pushCell :: "ColorType list \<Rightarrow> nat \<Rightarrow> ColorType list \<times> nat \<Rightarrow> nat \<Rightarrow> ColorType list \<times> nat" where
  "pushCell colorPool y rp x =
     (if int x = fst START_POS \<and> int y = snd START_POS then (fst rp @ [GRAY], snd rp)
      else (fst rp @ [colorPool ! snd rp], snd rp + 1))"

definition pushRow :: "ColorType list \<Rightarrow> Grid \<times> nat \<Rightarrow> nat \<Rightarrow> Grid \<times> nat" where
  "pushRow colorPool gp y =
     (let rp = foldl (pushCell colorPool y) ([], snd gp) [0..<nat GRID_SIZE]
      in (fst gp @ [fst rp], snd rp))"

definition generateGrid :: "(nat \<Rightarrow> real) \<Rightarrow> Grid" where
  "generateGrid rnd =
     (let totalTiles = GRID_SIZE * GRID_SIZE;
          playableTiles = totalTiles - 1;
          colorCount = int (length ALL_COLORS);
          tilesPerColor = nat \<lfloor>real_of_int playableTiles / real_of_int colorCount\<rfloor>;
          colorPool = concat (map (\<lambda>color. replicate tilesPerColor color) ALL_COLORS);
          shuffled = shuffle rnd (length colorPool - 1) colorPool
      in fst (foldl (pushRow shuffled) ([], 0) [0..<nat GRID_SIZE]))"

section \<open>The orientations of the cube\<close>

text \<open>
  The 24 orientations of the cube: one for each face that can be in front, each in its
  four turns about the axis from front to back.
\<close>

definition orbit :: "CubeOrientation list" where
  "orbit =
     concat (map (\<lambda>b. [b, rotateOrientation b Left,
                          rotateOrientation (rotateOrientation b Left) Left,
                          rotateOrientation (rotateOrientation (rotateOrientation b Left) Left) Left])
       [INITIAL_CUBE_FACES,
        rotateOrientation INITIAL_CUBE_FACES Up,
        rotateOrientation (rotateOrientation INITIAL_CUBE_FACES Up) Up,
        rotateOrientation INITIAL_CUBE_FACES Down,
        rotateOrientation (rotateOrientation INITIAL_CUBE_FACES Left) Up,
        rotateOrientation (rotateOrientation INITIAL_CUBE_FACES Right) Up])"

lemma orbit_closed: "c \<in> set orbit \<Longrightarrow> rotateOrientation c d \<in> set orbit"
  by (cases d) (auto simp: orbit_def INITIAL_CUBE_FACES_def)

lemma reachable_orbit: "reachable c \<Longrightarrow> c \<in> set orbit"
proof (induction rule: reachable.induct)
  case reachable_init
  show ?case by (simp add: orbit_def)
next
  case (reachable_rot c d)
  from reachable_rot.IH show ?case by (rule orbit_closed)
qed

lemma orbit_distinct: "distinct (map (\<lambda>c. (top_face c, front c)) orbit)"
  by (simp add: orbit_def INITIAL_CUBE_FACES_def)

lemma reachable_top_front:
  assumes "reachable c1" "reachable c2" "top_face c1 = top_face c2" "front c1 = front c2"
  shows "c1 = c2"
proof -
  have "inj_on (\<lambda>c. (top_face c, front c)) (set orbit)"
    using orbit_distinct by (simp add: distinct_map)
  moreover have "c1 \<in> set orbit" "c2 \<in> set orbit"
    using assms(1,2) by (simp_all add: reachable_orbit)
  ultimately show ?thesis
    using assms(3,4) by (auto dest: inj_onD)
qed

lemma hexOf_length: "length (hexOf t) = 7"
  by (cases t) simp_all

lemma hexOf_inj: "hexOf a = hexOf b \<Longrightarrow> a = b"
  by (cases a; cases b; simp)

lemma getOrientationKey_eq:
  "getOrientationKey c1 = getOrientationKey c2 \<longleftrightarrow>
     top_face c1 = top_face c2 \<and> front c1 = front c2"
proof
  assume "getOrientationKey c1 = getOrientationKey c2"
  then have "hexOf (top_face c1) = hexOf (top_face c2) \<and>
             ''-'' @ hexOf (front c1) = ''-'' @ hexOf (front c2)"
    unfolding getOrientationKey_def
    by (subst (asm) append_eq_append_conv) (simp_all add: hexOf_length)
  then show "top_face c1 = top_face c2 \<and> front c1 = front c2"
    by (auto dest: hexOf_inj)
next
  assume "top_face c1 = top_face c2 \<and> front c1 = front c2"
  then show "getOrientationKey c1 = getOrientationKey c2"
    by (simp add: getOrientationKey_def)
qed

text \<open>
  Claim C5: two orientations reachable from \<open>INITIAL_CUBE_FACES\<close> that agree on top and
  front are equal, and so are two that have the same orientation key.
\<close>

theorem orientation_key_distinguishes:
  assumes "reachable c1" "reachable c2"
  shows "(top_face c1 = top_face c2 \<and> front c1 = front c2 \<longrightarrow> c1 = c2) \<and>
         (getOrientationKey c1 = getOrientationKey c2 \<longrightarrow> c1 = c2)"
  using assms by (auto simp: getOrientationKey_eq intro: reachable_top_front)

theorem orientation_key_distinguishes_witness:
  "reachable INITIAL_CUBE_FACES \<and> reachable (rotateOrientation INITIAL_CUBE_FACES Right) \<and>
   getOrientationKey INITIAL_CUBE_FACES \<noteq> getOrientationKey (rotateOrientation INITIAL_CUBE_FACES Right)"
proof -
  have r1: "reachable INITIAL_CUBE_FACES"
    by (rule reachable_init)
  have r2: "reachable (rotateOrientation INITIAL_CUBE_FACES Right)"
    by (rule reachable_rot [OF r1])
  have "INITIAL_CUBE_FACES \<noteq> rotateOrientation INITIAL_CUBE_FACES Right"
    by (simp add: INITIAL_CUBE_FACES_def)
  then show ?thesis
    using r1 r2 orientation_key_distinguishes [OF r1 r2] by blast
qed

text \<open>
  Claim C6: four rolls in one direction restore every orientation; up then down, and left
  then right, restore it too.
\<close>

theorem rotateOrientation_cycle:
  "rotateOrientation (rotateOrientation (rotateOrientation (rotateOrientation c d) d) d) d = c \<and>
   rotateOrientation (rotateOrientation c Up) Down = c \<and>
   rotateOrientation (rotateOrientation c Left) Right = c"
  by (cases d) simp_all

theorem rotateOrientation_cycle_witness:
  "rotateOrientation (rotateOrientation (rotateOrientation (rotateOrientation
     INITIAL_CUBE_FACES Left) Left) Left) Left = INITIAL_CUBE_FACES \<and>
   rotateOrientation (rotateOrientation INITIAL_CUBE_FACES Up) Down = INITIAL_CUBE_FACES \<and>
   rotateOrientation (rotateOrientation INITIAL_CUBE_FACES Left) Right = INITIAL_CUBE_FACES"
  by (rule rotateOrientation_cycle)

section \<open>The search and the simulation are total on five by five grids\<close>

text \<open>A grid of five rows of five tiles.\<close>

definition validGrid :: "Grid \<Rightarrow> bool" where
  "validGrid g \<longleftrightarrow> length g = nat GRID_SIZE \<and> (\<forall>row \<in> set g. length row = nat GRID_SIZE)"

lemma tileAt_valid:
  assumes "validGrid g" "inGrid (x, y, c)"
  shows "tileAt g x y = Inr (Some (g ! nat y ! nat x))"
proof -
  have y: "0 \<le> y" "y < int (length g)"
    using assms by (simp_all add: validGrid_def GRID_SIZE_def)
  then have "g ! nat y \<in> set g"
    by simp
  then have "length (g ! nat y) = 5"
    using assms(1) by (simp add: validGrid_def GRID_SIZE_def)
  then show ?thesis
    using y assms(2) by (simp add: tileAt_def jsIndex_def GRID_SIZE_def)
qed

lemma inGrid_visitNext:
  assumes "\<forall>n \<in> set (snd vq). inGrid (nodeState n)"
  shows "\<forall>n \<in> set (snd (visitNext cur vq d)). inGrid (nodeState n)"
proof -
  obtain v q where vq: "vq = (v, q)"
    by (cases vq)
  show ?thesis
    using assms by (auto simp: vq visitNext_rollTo)
qed

lemma inGrid_foldl:
  "\<forall>n \<in> set (snd vq). inGrid (nodeState n) \<Longrightarrow>
   \<forall>n \<in> set (snd (foldl (visitNext cur) vq dirs)). inGrid (nodeState n)"
proof (induction dirs arbitrary: vq)
  case Nil
  then show ?case by simp
next
  case (Cons d ds)
  have "\<forall>n \<in> set (snd (visitNext cur vq d)). inGrid (nodeState n)"
    by (rule inGrid_visitNext [OF Cons.prems])
  then show ?case
    using Cons.IH by simp
qed

lemma findPathLoop_total:
  "validGrid g \<Longrightarrow> \<forall>n \<in> set (snd vq). inGrid (nodeState n) \<Longrightarrow> \<exists>r. findPathLoop g vq = Inr r"
proof (induction g vq rule: findPathLoop.induct)
  case (1 g visited)
  show ?case by simp
next
  case (2 g visited cur queue)
  have "inGrid (nodeX cur, nodeY cur, faces cur)"
    using "2.prems"(2) by (simp add: nodeState_def)
  then obtain t where tile: "tileAt g (nodeX cur) (nodeY cur) = Inr (Some t)"
    using tileAt_valid [OF "2.prems"(1)] by blast
  have rest: "\<forall>n \<in> set (snd (visited, queue)). inGrid (nodeState n)"
    using "2.prems"(2) by simp
  show ?case
  proof (cases "matches (Some t) (bottom (faces cur))")
    case True
    then show ?thesis using tile by simp
  next
    case False
    show ?thesis
    proof (cases "length (path cur) > 15")
      case True
      then show ?thesis
        using "2.IH"(1) [OF tile False True "2.prems"(1) rest] tile False by simp
    next
      case long: False
      have "\<forall>n \<in> set (snd (foldl (visitNext cur) (visited, queue) [Up, Down, Left, Right])).
              inGrid (nodeState n)"
        by (rule inGrid_foldl [OF rest])
      then show ?thesis
        using "2.IH"(2) [OF tile False long "2.prems"(1)] tile False long by simp
    qed
  qed
qed

lemma findPath_total:
  assumes "validGrid g" "inGrid (x, y, c)"
  shows "\<exists>r. findPath g x y c = Inr r"
  unfolding findPath_def using assms
  by (intro findPathLoop_total) (simp_all add: nodeState_def)

lemma inGrid_walk: "walk s p = Some s' \<Longrightarrow> inGrid s \<Longrightarrow> inGrid s'"
  by (induction p arbitrary: s) (auto split: if_splits)

lemma validGrid_setTile:
  assumes "validGrid g" "setTile g x y t = Inr g'"
  shows "validGrid g'"
proof -
  from assms(2) obtain row where "jsIndex g y = Some row" "g' = g[nat y := row[nat x := t]]"
    by (auto simp: setTile_def split: option.splits if_splits)
  then have "row = g ! nat y" "nat y < length g"
    by (auto simp: jsIndex_def split: if_splits)
  then have "row \<in> set g"
    by simp
  then have "length (row[nat x := t]) = nat GRID_SIZE"
    using assms(1) by (simp add: validGrid_def)
  then show ?thesis
    using assms(1) \<open>g' = g[nat y := row[nat x := t]]\<close>
    by (auto simp: validGrid_def dest!: set_update_subset_insert [THEN subsetD])
qed

lemma simulateLoop_total:
  "validGrid g \<Longrightarrow> inGrid (fst pos, snd pos, fs) \<Longrightarrow> \<exists>n. simulateLoop g pos fs m = Inr n"
proof (induction g pos fs m rule: simulateLoop.induct)
  case (1 gridCopy currentPos currentFaces totalMoves)
  from findPath_total [OF "1.prems"] obtain r
    where r: "findPath gridCopy (fst currentPos) (snd currentPos) currentFaces = Inr r"
    by blast
  show ?case
  proof (cases r)
    case None
    then show ?thesis
      using r by (subst simulateLoop.simps) simp
  next
    case (Some p)
    from findPath_sound [of gridCopy "fst currentPos" "snd currentPos" currentFaces p] r Some
    obtain s where s: "walk (fst currentPos, snd currentPos, currentFaces) p = Some s" "isGoal gridCopy s"
      by blast
    obtain x y c where xyc: "s = (x, y, c)"
      by (cases s)
    have fo: "foldl advance (currentPos, currentFaces) p = ((x, y), c)"
      using foldl_advance_walk [of "fst currentPos" "snd currentPos" currentFaces p x y c] s(1) xyc
      by simp
    obtain g' where g': "setTile gridCopy x y BLACK = Inr g'"
      using setTile_goal [of gridCopy x y c] s(2) xyc by blast
    have "validGrid g'"
      by (rule validGrid_setTile [OF "1.prems"(1) g'])
    moreover have "inGrid (x, y, c)"
      using inGrid_walk [OF s(1) "1.prems"(2)] xyc by simp
    ultimately have "\<exists>n. simulateLoop g' (x, y) c (totalMoves + int (length p)) = Inr n"
      using "1.IH" [OF r Some, of "(x, y)" c g'] fo g' by simp
    then show ?thesis
      using r Some fo g' by (subst simulateLoop.simps) simp
  qed
qed

lemma simulateAiStats_total:
  assumes "validGrid g"
  shows "\<exists>n. simulateAiStats g = Inr (if n > 0 then \<lfloor>(25 / real_of_int n) * 100\<rfloor> else 0, n)"
proof -
  have "inGrid (fst (fst START_POS, snd START_POS), snd (fst START_POS, snd START_POS), INITIAL_CUBE_FACES)"
    by (simp add: START_POS_def GRID_SIZE_def)
  from simulateLoop_total [OF assms this, of 0] show ?thesis
    unfolding simulateAiStats_def by auto
qed

section \<open>The roll transition\<close>

text \<open>
  The state a game starts from, as the component builds it at start, restart and load,
  with the stored high score \<open>hs\<close>.
\<close>

definition newGame :: "Grid \<Rightarrow> int \<Rightarrow> GameState" where
  "newGame g hs =
     \<lparr> initialGrid = g, grid = g, cubePosition = (fst START_POS, snd START_POS),
       cubeFaces = INITIAL_CUBE_FACES, moves = 0, matchedCount = 1, status = Playing,
       highScore = hs, aiComparisonScore = None, aiComparisonMoves = None \<rparr>"

text \<open>A board as \<open>generateGrid\<close> lays it out: four tiles of each colour around the start.\<close>

definition sampleGrid :: Grid where
  "sampleGrid =
     [[GREEN, RED, BLUE, YELLOW, PINK],
      [WHITE, GREEN, RED, BLUE, YELLOW],
      [PINK, WHITE, GRAY, YELLOW, GREEN],
      [RED, BLUE, YELLOW, PINK, WHITE],
      [GREEN, RED, BLUE, PINK, WHITE]]"

lemma validGrid_sampleGrid: "validGrid sampleGrid"
  by (simp add: validGrid_def sampleGrid_def GRID_SIZE_def)

lemma completeRoll_off:
  assumes "\<not> inGrid (rollTo (fst (cubePosition s), snd (cubePosition s), cubeFaces s) d)"
  shows "completeRoll d s = Inr (s\<lparr> status := Lost \<rparr>)"
  using assms by (cases d) (auto simp: completeRoll_def Let_def)

text \<open>
  Claim C3: a roll that takes the cube off the grid sets the status to lost and changes
  no other field of the state; the move counter in particular keeps its value.
\<close>

theorem roll_off_grid:
  assumes "status s = Playing"
    and "\<not> inGrid (rollTo (fst (cubePosition s), snd (cubePosition s), cubeFaces s) d)"
  shows "completeRoll d s = Inr (s\<lparr> status := Lost \<rparr>)"
  using assms(2) by (rule completeRoll_off)

theorem roll_off_grid_witness:
  "completeRoll Left ((newGame sampleGrid 0)\<lparr> cubePosition := (0, 2) \<rparr>)
     = Inr ((newGame sampleGrid 0)\<lparr> cubePosition := (0, 2), status := Lost \<rparr>)"
  using roll_off_grid [of "(newGame sampleGrid 0)\<lparr> cubePosition := (0, 2) \<rparr>" Left]
  by (simp add: newGame_def GRID_SIZE_def)

text \<open>
  Claim C7: when the game is won or lost, \<open>handleRoll\<close> returns the state it was given,
  whatever the direction; no roll starts, and with no roll in flight the completion
  callback changes nothing either.
\<close>

theorem handleRoll_game_over:
  assumes "status (gameState app) = Won \<or> status (gameState app) = Lost"
  shows "handleRoll app d = app \<and>
         (rollDirection app = None \<longrightarrow> onRollComplete (handleRoll app d) = Inr app)"
  using assms by (auto simp: handleRoll_def onRollComplete_def)

theorem handleRoll_game_over_witness:
  "handleRoll \<lparr> gameState = (newGame sampleGrid 0)\<lparr> status := Lost \<rparr>, isRolling = False,
                rollDirection = None \<rparr> Up
     = \<lparr> gameState = (newGame sampleGrid 0)\<lparr> status := Lost \<rparr>, isRolling = False,
         rollDirection = None \<rparr> \<and>
   onRollComplete (handleRoll \<lparr> gameState = (newGame sampleGrid 0)\<lparr> status := Lost \<rparr>,
                               isRolling = False, rollDirection = None \<rparr> Up)
     = Inr \<lparr> gameState = (newGame sampleGrid 0)\<lparr> status := Lost \<rparr>, isRolling = False,
             rollDirection = None \<rparr>"
  using handleRoll_game_over [of "\<lparr> gameState = (newGame sampleGrid 0)\<lparr> status := Lost \<rparr>,
                                    isRolling = False, rollDirection = None \<rparr>" Up]
  by (simp cong: conj_cong)

lemma completeRoll_on_grid:
  assumes "validGrid (grid s)" "validGrid (initialGrid s)"
    and "rollTo (fst (cubePosition s), snd (cubePosition s), cubeFaces s) d = (x, y, c)"
    and "inGrid (x, y, c)"
  shows "\<exists>s'. completeRoll d s = Inr s' \<and> cubePosition s' = (x, y) \<and> cubeFaces s' = c \<and>
               moves s' = moves s + 1 \<and> initialGrid s' = initialGrid s \<and>
               grid s' = (if matches (Some (grid s ! nat y ! nat x)) (bottom c)
                          then markTile (grid s) x y else grid s) \<and>
               matchedCount s' = (if matches (Some (grid s ! nat y ! nat x)) (bottom c)
                                  then matchedCount s + 1 else matchedCount s) \<and>
               status s' = (if matchedCount s' = 25 then Won else status s)"
proof -
  have tile: "tileAt (grid s) x y = Inr (Some (grid s ! nat y ! nat x))"
    by (rule tileAt_valid [OF assms(1,4)])
  obtain n where ai: "simulateAiStats (initialGrid s) =
      Inr (if n > 0 then \<lfloor>(25 / real_of_int n) * 100\<rfloor> else 0, n)"
    using simulateAiStats_total [OF assms(2)] by blast
  show ?thesis
    using assms(3,4) tile ai
    by (cases d) (auto simp: completeRoll_def Let_def GRID_SIZE_def)
qed

text \<open>
  Claim C4, amended: from \<open>(2, 2)\<close> with the initial faces, a roll to the right puts the
  cube on \<open>(3, 2)\<close>, and its new bottom face is the old right face, yellow.
\<close>

theorem roll_right_from_start:
  assumes "validGrid (grid s)" "validGrid (initialGrid s)"
    and "cubePosition s = (2, 2)" "cubeFaces s = INITIAL_CUBE_FACES"
  shows "\<exists>s'. completeRoll Right s = Inr s' \<and> cubePosition s' = (3, 2) \<and>
               bottom (cubeFaces s') = right INITIAL_CUBE_FACES"
proof -
  have "rollTo (fst (cubePosition s), snd (cubePosition s), cubeFaces s) Right
          = (3, 2, rotateOrientation INITIAL_CUBE_FACES Right)"
    using assms(3,4) by simp
  moreover have "inGrid (3, 2, rotateOrientation INITIAL_CUBE_FACES Right)"
    by (simp add: GRID_SIZE_def)
  ultimately obtain s' where "completeRoll Right s = Inr s'" "cubePosition s' = (3, 2)"
    "cubeFaces s' = rotateOrientation INITIAL_CUBE_FACES Right"
    using completeRoll_on_grid [OF assms(1,2)] by blast
  then show ?thesis
    by simp
qed

theorem roll_right_from_start_witness:
  "\<exists>s'. completeRoll Right (newGame sampleGrid 0) = Inr s' \<and> cubePosition s' = (3, 2) \<and>
         bottom (cubeFaces s') = YELLOW"
  using roll_right_from_start [of "newGame sampleGrid 0"] validGrid_sampleGrid
  by (simp add: newGame_def START_POS_def INITIAL_CUBE_FACES_def)

theorem roll_right_from_start_counterexample:
  "map_sum id (\<lambda>s'. (cubePosition s', bottom (cubeFaces s')))
     (completeRoll Right (newGame sampleGrid 0)) = Inr ((3, 2), YELLOW) \<and>
   left INITIAL_CUBE_FACES = GREEN"
  by (simp add: completeRoll_def newGame_def sampleGrid_def START_POS_def GRID_SIZE_def
      INITIAL_CUBE_FACES_def tileAt_def jsIndex_def matches_def Let_def)

section \<open>The two searches, and the efficiency\<close>

lemma aiSearchLoop_findPathLoop: "aiSearchLoop g vq = findPathLoop g vq"
proof (induction g vq rule: findPathLoop.induct)
  case (1 g visited)
  show ?case by simp
next
  case (2 g visited cur queue)
  have same: "aiVisitNext cur = visitNext cur"
    by (intro ext) (simp add: aiVisitNext_def visitNext_def)
  show ?case
    using "2.IH" by (auto simp: same split: sum.splits)
qed

text \<open>
  Claim C10: the search written out in \<open>runAiStep\<close> returns what \<open>findPath\<close> returns
  on the same grid, position and faces, a path or none; and no path returned has more
  than 16 moves.
\<close>

theorem searches_agree:
  "runAiStepSearch s
     = findPath (grid s) (fst (cubePosition s)) (snd (cubePosition s)) (cubeFaces s) \<and>
   (\<forall>p. findPath g x y c = Inr (Some p) \<longrightarrow> length p \<le> 16)"
proof (intro conjI allI impI)
  show "runAiStepSearch s
          = findPath (grid s) (fst (cubePosition s)) (snd (cubePosition s)) (cubeFaces s)"
    by (simp add: runAiStepSearch_def findPath_def Let_def aiSearchLoop_findPathLoop)
next
  fix p
  assume "findPath g x y c = Inr (Some p)"
  from findPath_sound [OF this] show "length p \<le> 16"
    by blast
qed

lemma findPath_sample: "findPath sampleGrid 2 2 INITIAL_CUBE_FACES = Inr (Some [Right])"
  by (simp add: findPath_def sampleGrid_def INITIAL_CUBE_FACES_def visitNext_def
      getOrientationKey_def GRID_SIZE_def tileAt_def jsIndex_def matches_def Let_def)

theorem searches_agree_witness:
  "runAiStepSearch (newGame sampleGrid 0) = Inr (Some [Right]) \<and>
   findPath sampleGrid 2 2 INITIAL_CUBE_FACES = Inr (Some [Right]) \<and>
   length [Right] \<le> (16 :: nat)"
  using searches_agree [of "newGame sampleGrid 0" sampleGrid 2 2 INITIAL_CUBE_FACES] findPath_sample
  by (simp add: newGame_def START_POS_def)

lemma percent_div:
  assumes "0 < n"
  shows "\<lfloor>(25 / real_of_int n) * 100\<rfloor> = 2500 div n"
proof -
  have "(25 / real_of_int n) * 100 = real_of_int 2500 / real_of_int n"
    by simp
  then show ?thesis
    by (simp only: floor_divide_of_int_eq)
qed

text \<open>
  Claim C8, amended: the efficiency of the reference simulation is
  \<open>floor((25 / moves) * 100)\<close> for a positive move count and 0 for none, and the
  simulation of a five by five grid returns. The efficiency on display is the same
  expression for a move count other than 0; with no move made yet it divides by 1
  and is 2500.
\<close>

theorem efficiency_percent:
  "(\<forall>e n. simulateAiStats g = Inr (e, n) \<longrightarrow>
      e = (if 0 < n then \<lfloor>(25 / real_of_int n) * 100\<rfloor> else 0)) \<and>
   (validGrid g \<longrightarrow> (\<exists>e n. simulateAiStats g = Inr (e, n))) \<and>
   userEfficiency s = (if moves s = 0 then 2500 else \<lfloor>(25 / real_of_int (moves s)) * 100\<rfloor>)"
proof (intro conjI allI impI)
  fix e n
  assume "simulateAiStats g = Inr (e, n)"
  then show "e = (if 0 < n then \<lfloor>(25 / real_of_int n) * 100\<rfloor> else 0)"
    by (auto simp: simulateAiStats_def Let_def split: sum.splits)
next
  assume "validGrid g"
  from simulateAiStats_total [OF this] show "\<exists>e n. simulateAiStats g = Inr (e, n)"
    by blast
next
  show "userEfficiency s = (if moves s = 0 then 2500 else \<lfloor>(25 / real_of_int (moves s)) * 100\<rfloor>)"
    by (simp add: userEfficiency_def)
qed

theorem efficiency_percent_witness:
  "validGrid sampleGrid \<and>
   (\<exists>e n. simulateAiStats sampleGrid = Inr (e, n) \<and>
           e = (if 0 < n then \<lfloor>(25 / real_of_int n) * 100\<rfloor> else 0)) \<and>
   userEfficiency ((newGame sampleGrid 0)\<lparr> moves := 30 \<rparr>) = 83"
proof -
  have "userEfficiency ((newGame sampleGrid 0)\<lparr> moves := 30 \<rparr>) = 83"
    using efficiency_percent [of sampleGrid "(newGame sampleGrid 0)\<lparr> moves := 30 \<rparr>"]
    by (simp add: percent_div)
  then show ?thesis
    using efficiency_percent [of sampleGrid "(newGame sampleGrid 0)\<lparr> moves := 30 \<rparr>"]
      validGrid_sampleGrid
    by blast
qed

theorem efficiency_percent_counterexample:
  "moves (newGame sampleGrid 0) = 0 \<and> userEfficiency (newGame sampleGrid 0) = 2500"
  by (simp add: userEfficiency_def newGame_def)

section \<open>The generated board\<close>

lemma shuffle_index:
  fixes r :: real
  assumes "0 \<le> r" "r < 1"
  shows "nat \<lfloor>r * real (i + 1)\<rfloor> \<le> i"
proof -
  have "r * real (i + 1) < real (i + 1)"
    using assms by simp
  then have "\<lfloor>r * real (i + 1)\<rfloor> < int (i + 1)"
    by (simp add: floor_less_iff)
  then show ?thesis
    by simp
qed

lemma mset_shuffle:
  assumes "\<forall>i. 0 \<le> rnd i \<and> rnd i < 1"
  shows "k < length xs \<Longrightarrow> mset (shuffle rnd k xs) = mset xs"
proof (induction k arbitrary: xs)
  case 0
  show ?case by simp
next
  case (Suc k)
  let ?j = "nat \<lfloor>rnd (Suc k) * real (Suc k + 1)\<rfloor>"
  let ?ys = "xs[Suc k := xs ! ?j, ?j := xs ! Suc k]"
  have "?j \<le> Suc k"
    using assms by (intro shuffle_index) simp_all
  then have j: "?j < length xs"
    using Suc.prems by simp
  have "?ys = xs[?j := xs ! Suc k, Suc k := xs ! ?j]"
    by (cases "?j = Suc k") (simp_all add: list_update_swap)
  then have "mset ?ys = mset xs"
    using mset_swap [OF Suc.prems j] by simp
  moreover have "k < length ?ys"
    using Suc.prems by simp
  ultimately show ?case
    using Suc.IH [of ?ys] by (simp add: Let_def)
qed

text \<open>The nested loops of \<open>generateGrid\<close>, for a pool already shuffled.\<close>

definition layout :: "ColorType list \<Rightarrow> Grid" where
  "layout colorPool = fst (foldl (pushRow colorPool) ([], 0) [0..<nat GRID_SIZE])"

lemma upt_5: "[0..<5] = [0, 1, 2, 3, 4]"
  by (simp add: upt_rec)

lemma layout_cells:
  "layout xs =
     [[xs ! 0, xs ! 1, xs ! 2, xs ! 3, xs ! 4],
      [xs ! 5, xs ! 6, xs ! 7, xs ! 8, xs ! 9],
      [xs ! 10, xs ! 11, GRAY, xs ! 12, xs ! 13],
      [xs ! 14, xs ! 15, xs ! 16, xs ! 17, xs ! 18],
      [xs ! 19, xs ! 20, xs ! 21, xs ! 22, xs ! 23]]"
  by (simp add: layout_def pushRow_def pushCell_def GRID_SIZE_def START_POS_def upt_5
      eval_nat_numeral)

lemma list_24:
  assumes "length xs = 24"
  shows "xs = [xs ! 0, xs ! 1, xs ! 2, xs ! 3, xs ! 4, xs ! 5, xs ! 6, xs ! 7, xs ! 8, xs ! 9,
               xs ! 10, xs ! 11, xs ! 12, xs ! 13, xs ! 14, xs ! 15, xs ! 16, xs ! 17, xs ! 18,
               xs ! 19, xs ! 20, xs ! 21, xs ! 22, xs ! 23]"
proof -
  have "xs = map ((!) xs) [0..<24]"
    using assms map_nth [of xs] by simp
  also have "[0..<24] = [0, 1, 2, 3, 4, 5, 6, 7, 8, 9, 10, 11, 12, 13, 14, 15, 16, 17, 18, 19,
                         20, 21, 22, 23 :: nat]"
    by (simp add: upt_rec)
  finally show ?thesis
    by simp
qed

lemma mset_layout:
  assumes "length xs = 24"
  shows "mset (concat (layout xs)) = add_mset GRAY (mset xs)"
proof -
  let ?cells = "[xs ! 0, xs ! 1, xs ! 2, xs ! 3, xs ! 4, xs ! 5, xs ! 6, xs ! 7,
               xs ! 8, xs ! 9, xs ! 10, xs ! 11, xs ! 12, xs ! 13, xs ! 14, xs ! 15, xs ! 16,
               xs ! 17, xs ! 18, xs ! 19, xs ! 20, xs ! 21, xs ! 22, xs ! 23]"
  have "mset (concat (layout xs)) = add_mset GRAY (mset ?cells)"
    by (simp add: layout_cells)
  also have "?cells = xs"
    by (rule list_24 [OF assms, symmetric])
  finally show ?thesis .
qed

lemma generateGrid_layout:
  "generateGrid rnd =
     layout (shuffle rnd 23 (concat (map (\<lambda>color. replicate 4 color) ALL_COLORS)))"
proof -
  have "nat \<lfloor>real_of_int (GRID_SIZE * GRID_SIZE - 1) / real_of_int (int (length ALL_COLORS))\<rfloor> = 4"
    by (simp add: GRID_SIZE_def ALL_COLORS_def)
  moreover have "length (concat (map (\<lambda>color. replicate 4 color) ALL_COLORS)) - 1 = 23"
    by (simp add: ALL_COLORS_def)
  ultimately show ?thesis
    by (simp add: generateGrid_def layout_def Let_def)
qed

lemma length_shuffle: "length (shuffle rnd k xs) = length xs"
  by (induction k arbitrary: xs) (simp_all add: Let_def)

text \<open>
  Claim C9: whatever the random draws, \<open>generateGrid\<close> returns five rows of five tiles
  with the gray tile at the start position, colours of the palette everywhere else, and
  each colour of the palette on exactly four tiles.
\<close>

theorem generateGrid_board:
  assumes "\<forall>i. 0 \<le> rnd i \<and> rnd i < 1"
  shows "validGrid (generateGrid rnd) \<and>
         tileAt (generateGrid rnd) (fst START_POS) (snd START_POS) = Inr (Some GRAY) \<and>
         (\<forall>x < 5. \<forall>y < 5. (int x, int y) \<noteq> START_POS \<longrightarrow>
            generateGrid rnd ! y ! x \<in> set ALL_COLORS) \<and>
         (\<forall>t \<in> set ALL_COLORS. count (mset (concat (generateGrid rnd))) t = 4)"
proof -
  let ?pool = "concat (map (\<lambda>color. replicate 4 color) ALL_COLORS)"
  let ?xs = "shuffle rnd 23 ?pool"
  have len: "length ?xs = 24"
    by (simp add: length_shuffle ALL_COLORS_def)
  have ms: "mset ?xs = mset ?pool"
    by (rule mset_shuffle [OF assms]) (simp add: ALL_COLORS_def)
  then have "set ?xs = set ?pool"
    by (rule mset_eq_setD)
  moreover have "set ?pool = set ALL_COLORS"
    by (auto simp: ALL_COLORS_def)
  ultimately have set: "set ?xs = set ALL_COLORS"
    by simp
  have g: "generateGrid rnd = layout ?xs"
    by (rule generateGrid_layout)
  have valid: "validGrid (generateGrid rnd)"
    by (simp add: g layout_cells validGrid_def GRID_SIZE_def)
  have start: "tileAt (generateGrid rnd) (fst START_POS) (snd START_POS) = Inr (Some GRAY)"
    by (simp add: g layout_cells tileAt_def jsIndex_def START_POS_def)
  have mem: "?xs ! k \<in> set ALL_COLORS" if "k < 24" for k
    using that len set nth_mem [of k ?xs] by simp
  have cells: "layout ?xs ! y ! x \<in> set ALL_COLORS"
    if "x < 5" "y < 5" "(int x, int y) \<noteq> START_POS" for x y
  proof -
    have "x \<in> {0, 1, 2, 3, 4}" "y \<in> {0, 1, 2, 3, 4}"
      using that(1,2) by auto
    then show ?thesis
      using that(3) unfolding layout_cells START_POS_def
      by (auto intro!: mem)
  qed
  have "count (mset (concat (generateGrid rnd))) t = 4" if "t \<in> set ALL_COLORS" for t
  proof -
    have "count (mset (concat (generateGrid rnd))) t = count (add_mset GRAY (mset ?pool)) t"
      by (simp only: g mset_layout [OF len] ms)
    also have "\<dots> = 4"
      using that by (auto simp: ALL_COLORS_def)
    finally show ?thesis .
  qed
  then show ?thesis
    using valid start cells g by simp
qed

theorem generateGrid_board_witness:
  "validGrid (generateGrid (\<lambda>i. 0)) \<and>
   tileAt (generateGrid (\<lambda>i. 0)) 2 2 = Inr (Some GRAY) \<and>
   generateGrid (\<lambda>i. 0) ! 0 ! 0 \<in> set ALL_COLORS \<and>
   count (mset (concat (generateGrid (\<lambda>i. 0)))) GREEN = 4"
  using generateGrid_board [of "\<lambda>i. 0"]
  by (simp add: START_POS_def ALL_COLORS_def)

section \<open>Replaying a path of the search\<close>

lemma tileAt_markTile:
  assumes "validGrid g" "inGrid (x, y, c)"
  shows "tileAt (markTile g x y) x y = Inr (Some BLACK)"
proof -
  have y0: "0 \<le> y" "y < 5" and x: "0 \<le> x" "x < 5" and lg: "length g = 5"
    using assms by (simp_all add: validGrid_def GRID_SIZE_def)
  then have y: "0 \<le> y" "nat y < length g"
    by simp_all
  then have "g ! nat y \<in> set g"
    by simp
  then have len: "length (g ! nat y) = 5"
    using assms(1) by (simp add: validGrid_def GRID_SIZE_def)
  have row: "jsIndex (markTile g x y) y =
      Some (map (\<lambda>(rx, col). if int (nat y) = y \<and> int rx = x then BLACK else col)
              (enumerate 0 (g ! nat y)))"
    using y by (simp add: jsIndex_def markTile_def nth_enumerate_eq)
  show ?thesis
    unfolding tileAt_def row using x y(1) len
    by (simp add: jsIndex_def nth_enumerate_eq)
qed

lemma replay_append:
  "replay s (p @ q) = (case replay s p of Inl e \<Rightarrow> Inl e | Inr u \<Rightarrow> replay u q)"
  by (induction p arbitrary: s) (simp_all split: sum.splits)

lemma replay_quiet:
  assumes "validGrid (grid s)" "validGrid (initialGrid s)" "cubePosition s = (x, y)"
    and "walk (x, y, cubeFaces s) q = Some (x', y', c')"
    and "\<forall>k. 0 < k \<and> k \<le> length q \<longrightarrow>
           (\<exists>s'. walk (x, y, cubeFaces s) (take k q) = Some s' \<and> \<not> isGoal (grid s) s')"
  shows "\<exists>u. replay s q = Inr u \<and> grid u = grid s \<and> initialGrid u = initialGrid s \<and>
             matchedCount u = matchedCount s \<and> cubePosition u = (x', y') \<and>
             cubeFaces u = c' \<and>
             status u = (if q \<noteq> [] \<and> matchedCount s = 25 then Won else status s)"
  using assms
proof (induction q arbitrary: s x y)
  case Nil
  then show ?case by simp
next
  case (Cons d ds)
  obtain x1 y1 c1 where r: "rollTo (x, y, cubeFaces s) d = (x1, y1, c1)"
    by (cases "rollTo (x, y, cubeFaces s) d")
  have ins: "inGrid (x1, y1, c1)" and w: "walk (x1, y1, c1) ds = Some (x', y', c')"
    using Cons.prems(4) r by (simp_all split: if_splits)
  have "\<exists>s'. walk (x, y, cubeFaces s) (take 1 (d # ds)) = Some s' \<and> \<not> isGoal (grid s) s'"
    using Cons.prems(5) [rule_format, of 1] by simp
  then have ng: "\<not> isGoal (grid s) (x1, y1, c1)"
    using r ins by simp
  have tile: "tileAt (grid s) x1 y1 = Inr (Some (grid s ! nat y1 ! nat x1))"
    by (rule tileAt_valid [OF Cons.prems(1) ins])
  have nm: "\<not> matches (Some (grid s ! nat y1 ! nat x1)) (bottom c1)"
    using ng tile by simp
  have r': "rollTo (fst (cubePosition s), snd (cubePosition s), cubeFaces s) d = (x1, y1, c1)"
    using r Cons.prems(3) by simp
  from completeRoll_on_grid [OF Cons.prems(1,2) r' ins]
  obtain s1 where s1: "completeRoll d s = Inr s1" "cubePosition s1 = (x1, y1)" "cubeFaces s1 = c1"
    "initialGrid s1 = initialGrid s"
    and g1: "grid s1 = (if matches (Some (grid s ! nat y1 ! nat x1)) (bottom c1)
                        then markTile (grid s) x1 y1 else grid s)"
    and m1: "matchedCount s1 = (if matches (Some (grid s ! nat y1 ! nat x1)) (bottom c1)
                                then matchedCount s + 1 else matchedCount s)"
    and st1: "status s1 = (if matchedCount s1 = 25 then Won else status s)"
    by blast
  have q1: "grid s1 = grid s" "matchedCount s1 = matchedCount s"
    using g1 m1 nm by simp_all
  have pre: "\<forall>k. 0 < k \<and> k \<le> length ds \<longrightarrow>
           (\<exists>s'. walk (x1, y1, cubeFaces s1) (take k ds) = Some s' \<and> \<not> isGoal (grid s1) s')"
  proof (intro allI impI)
    fix k
    assume k: "0 < k \<and> k \<le> length ds"
    then have "\<exists>s'. walk (x, y, cubeFaces s) (take (Suc k) (d # ds)) = Some s' \<and> \<not> isGoal (grid s) s'"
      using Cons.prems(5) [rule_format, of "Suc k"] by simp
    then show "\<exists>s'. walk (x1, y1, cubeFaces s1) (take k ds) = Some s' \<and> \<not> isGoal (grid s1) s'"
      using r ins s1(3) q1(1) by simp
  qed
  have v1: "validGrid (grid s1)" "validGrid (initialGrid s1)"
    using Cons.prems(1,2) s1(4) q1(1) by simp_all
  have w1: "walk (x1, y1, cubeFaces s1) ds = Some (x', y', c')"
    using w s1(3) by simp
  from Cons.IH [OF v1 s1(2) w1 pre]
  obtain u where u: "replay s1 ds = Inr u" "grid u = grid s1" "initialGrid u = initialGrid s1"
    "matchedCount u = matchedCount s1" "cubePosition u = (x', y')" "cubeFaces u = c'"
    "status u = (if ds \<noteq> [] \<and> matchedCount s1 = 25 then Won else status s1)"
    by blast
  have "replay s (d # ds) = Inr u"
    using s1(1) u(1) by simp
  moreover have "status u = (if matchedCount s = 25 then Won else status s)"
    using u(7) st1 q1(2) by simp
  ultimately show ?case
    using u(2-6) s1(4) q1 by simp
qed

lemma inGrid_walk_last:
  "walk s (q @ [d]) = Some s' \<Longrightarrow> inGrid s'"
  by (auto simp: walk_append split: option.splits if_splits)

lemma replay_prefix:
  assumes "validGrid (grid s)" "validGrid (initialGrid s)" "cubePosition s = (x, y)"
    and "\<forall>k < length p. \<exists>s'. walk (x, y, cubeFaces s) (take k p) = Some s' \<and> \<not> isGoal (grid s) s'"
    and "k < length p"
  shows "\<exists>u. replay s (take k p) = Inr u \<and> grid u = grid s \<and> initialGrid u = initialGrid s \<and>
             matchedCount u = matchedCount s \<and>
             walk (x, y, cubeFaces s) (take k p)
               = Some (fst (cubePosition u), snd (cubePosition u), cubeFaces u) \<and>
             status u = (if 0 < k \<and> matchedCount s = 25 then Won else status s)"
proof -
  obtain xk yk ck where w: "walk (x, y, cubeFaces s) (take k p) = Some (xk, yk, ck)"
    using assms(4,5) by (metis prod_cases3)
  have "\<forall>j. 0 < j \<and> j \<le> length (take k p) \<longrightarrow>
          (\<exists>s'. walk (x, y, cubeFaces s) (take j (take k p)) = Some s' \<and> \<not> isGoal (grid s) s')"
  proof (intro allI impI)
    fix j
    assume j: "0 < j \<and> j \<le> length (take k p)"
    then have "j < length p" "take j (take k p) = take j p"
      using assms(5) by (simp_all add: min_def)
    then show "\<exists>s'. walk (x, y, cubeFaces s) (take j (take k p)) = Some s' \<and> \<not> isGoal (grid s) s'"
      using assms(4) by simp
  qed
  from replay_quiet [OF assms(1-3) w this]
  obtain u where u: "replay s (take k p) = Inr u" "grid u = grid s" "initialGrid u = initialGrid s"
    "matchedCount u = matchedCount s" "cubePosition u = (xk, yk)" "cubeFaces u = ck"
    "status u = (if take k p \<noteq> [] \<and> matchedCount s = 25 then Won else status s)"
    by blast
  have "take k p \<noteq> [] \<longleftrightarrow> 0 < k"
    using assms(5) by (cases p) auto
  then have "status u = (if 0 < k \<and> matchedCount s = 25 then Won else status s)"
    using u(7) by simp
  then show ?thesis
    using u(1-6) w by simp
qed

lemma replay_goal:
  assumes "validGrid (grid s)" "validGrid (initialGrid s)" "cubePosition s = (x, y)"
    and "\<forall>k < length p. \<exists>s'. walk (x, y, cubeFaces s) (take k p) = Some s' \<and> \<not> isGoal (grid s) s'"
    and "walk (x, y, cubeFaces s) p = Some (xg, yg, cg)" "isGoal (grid s) (xg, yg, cg)"
    and "p \<noteq> []"
  shows "\<exists>t. replay s p = Inr t \<and> cubePosition t = (xg, yg) \<and> cubeFaces t = cg \<and>
             grid t = markTile (grid s) xg yg \<and> matchedCount t = matchedCount s + 1 \<and>
             status t = (if matchedCount t = 25 \<or> (1 < length p \<and> matchedCount s = 25)
                         then Won else status s)"
proof -
  let ?q = "butlast p" and ?d = "last p"
  have p: "p = ?q @ [?d]"
    using assms(7) by simp
  have k: "length ?q < length p" and tk: "take (length ?q) p = ?q"
    using assms(7) by (simp_all add: butlast_conv_take)
  from replay_prefix [OF assms(1-4) k]
  obtain u where u: "replay s ?q = Inr u" "grid u = grid s" "initialGrid u = initialGrid s"
    "matchedCount u = matchedCount s"
    "walk (x, y, cubeFaces s) ?q = Some (fst (cubePosition u), snd (cubePosition u), cubeFaces u)"
    "status u = (if 0 < length ?q \<and> matchedCount s = 25 then Won else status s)"
    unfolding tk by blast
  have "walk (x, y, cubeFaces s) (?q @ [?d]) = Some (xg, yg, cg)"
    using assms(5) p by simp
  then have r: "rollTo (fst (cubePosition u), snd (cubePosition u), cubeFaces u) ?d = (xg, yg, cg)"
    and ins: "inGrid (xg, yg, cg)"
    unfolding walk_snoc [OF u(5)] by (simp_all split: if_splits)
  have vu: "validGrid (grid u)" "validGrid (initialGrid u)"
    using assms(1,2) u(2,3) by simp_all
  have "tileAt (grid s) xg yg = Inr (Some (grid s ! nat yg ! nat xg))"
    by (rule tileAt_valid [OF assms(1) ins])
  then have hit: "matches (Some (grid u ! nat yg ! nat xg)) (bottom cg)"
    using assms(6) u(2) by simp
  from completeRoll_on_grid [OF vu r ins]
  obtain t where t: "completeRoll ?d u = Inr t" "cubePosition t = (xg, yg)" "cubeFaces t = cg"
    and gt: "grid t = (if matches (Some (grid u ! nat yg ! nat xg)) (bottom cg)
                       then markTile (grid u) xg yg else grid u)"
    and mt: "matchedCount t = (if matches (Some (grid u ! nat yg ! nat xg)) (bottom cg)
                               then matchedCount u + 1 else matchedCount u)"
    and st: "status t = (if matchedCount t = 25 then Won else status u)"
    by blast
  have "replay s (?q @ [?d]) = Inr t"
    using u(1) t(1) by (simp add: replay_append)
  then have "replay s p = Inr t"
    using p by simp
  moreover have "grid t = markTile (grid s) xg yg" "matchedCount t = matchedCount s + 1"
    using gt mt hit u(2,4) by simp_all
  moreover have "0 < length ?q \<longleftrightarrow> 1 < length p"
    by auto
  then have "status t = (if matchedCount t = 25 \<or> (1 < length p \<and> matchedCount s = 25)
                         then Won else status s)"
    using st u(6) by simp
  ultimately show ?thesis
    using t(2,3) by simp
qed

text \<open>A board as a loaded map can give it: the sample board with a pink tile at the start.\<close>

definition pinkStartGrid :: Grid where
  "pinkStartGrid =
     [[GREEN, RED, BLUE, YELLOW, PINK],
      [WHITE, GREEN, RED, BLUE, YELLOW],
      [PINK, WHITE, PINK, YELLOW, GREEN],
      [RED, BLUE, YELLOW, PINK, WHITE],
      [GREEN, RED, BLUE, PINK, WHITE]]"

text \<open>
  Claim C1, amended: in a playing state whose grid and initial grid have five rows of
  five tiles, a path that \<open>findPath\<close> returns from the cube's position and faces and
  that is not empty replays through \<open>completeRoll\<close> as follows. After every
  proper prefix the grid and the matched counter are unchanged and the status is not
  lost; it is still playing unless the counter stood at 25 from the start. The last roll
  ends on the goal tile, blackens it and adds one to the matched counter, and the status
  after it is not lost.
\<close>

theorem findPath_replay:
  assumes "validGrid (grid s)" "validGrid (initialGrid s)" "status s = Playing"
    and "cubePosition s = (x, y)"
    and "findPath (grid s) x y (cubeFaces s) = Inr (Some p)" "p \<noteq> []"
  shows "(\<forall>k < length p. \<exists>u. replay s (take k p) = Inr u \<and> grid u = grid s \<and>
            matchedCount u = matchedCount s \<and> status u \<noteq> Lost \<and>
            (matchedCount s \<noteq> 25 \<longrightarrow> status u = Playing)) \<and>
         (\<exists>t. replay s p = Inr t \<and>
            walk (x, y, cubeFaces s) p
              = Some (fst (cubePosition t), snd (cubePosition t), cubeFaces t) \<and>
            isGoal (grid s) (fst (cubePosition t), snd (cubePosition t), cubeFaces t) \<and>
            grid t = markTile (grid s) (fst (cubePosition t)) (snd (cubePosition t)) \<and>
            tileAt (grid t) (fst (cubePosition t)) (snd (cubePosition t)) = Inr (Some BLACK) \<and>
            matchedCount t = matchedCount s + 1 \<and> status t \<noteq> Lost)"
proof -
  from findPath_sound [OF assms(5)]
  obtain sg where w: "walk (x, y, cubeFaces s) p = Some sg" and goal: "isGoal (grid s) sg"
    and pre: "\<forall>k < length p. \<exists>s'. walk (x, y, cubeFaces s) (take k p) = Some s' \<and>
                \<not> isGoal (grid s) s'"
    by blast
  obtain xg yg cg where sg: "sg = (xg, yg, cg)"
    by (cases sg)
  have mid: "\<exists>u. replay s (take k p) = Inr u \<and> grid u = grid s \<and>
            matchedCount u = matchedCount s \<and> status u \<noteq> Lost \<and>
            (matchedCount s \<noteq> 25 \<longrightarrow> status u = Playing)" if "k < length p" for k
  proof -
    from replay_prefix [OF assms(1,2,4) pre that]
    obtain u where "replay s (take k p) = Inr u" "grid u = grid s" "matchedCount u = matchedCount s"
      "status u = (if 0 < k \<and> matchedCount s = 25 then Won else status s)"
      by blast
    then show ?thesis
      using assms(3) by auto
  qed
  from replay_goal [OF assms(1,2,4) pre w [unfolded sg] goal [unfolded sg] assms(6)]
  obtain t where t: "replay s p = Inr t" "cubePosition t = (xg, yg)" "cubeFaces t = cg"
    "grid t = markTile (grid s) xg yg" "matchedCount t = matchedCount s + 1"
    "status t = (if matchedCount t = 25 \<or> (1 < length p \<and> matchedCount s = 25)
                 then Won else status s)"
    by blast
  have "inGrid (xg, yg, cg)"
    using w assms(6) unfolding sg
    by (metis append_butlast_last_id inGrid_walk_last)
  then have "tileAt (grid t) xg yg = Inr (Some BLACK)"
    unfolding t(4) by (rule tileAt_markTile [OF assms(1)])
  moreover have "status t \<noteq> Lost"
    using t(6) assms(3) by simp
  ultimately have "replay s p = Inr t \<and>
            walk (x, y, cubeFaces s) p
              = Some (fst (cubePosition t), snd (cubePosition t), cubeFaces t) \<and>
            isGoal (grid s) (fst (cubePosition t), snd (cubePosition t), cubeFaces t) \<and>
            grid t = markTile (grid s) (fst (cubePosition t)) (snd (cubePosition t)) \<and>
            tileAt (grid t) (fst (cubePosition t)) (snd (cubePosition t)) = Inr (Some BLACK) \<and>
            matchedCount t = matchedCount s + 1 \<and> status t \<noteq> Lost"
    using t(1-5) w goal sg by simp
  then show ?thesis
    using mid by blast
qed

theorem findPath_replay_witness:
  "findPath sampleGrid 2 2 INITIAL_CUBE_FACES = Inr (Some [Right]) \<and>
   (\<exists>t. replay (newGame sampleGrid 0) [Right] = Inr t \<and>
        tileAt (grid t) (fst (cubePosition t)) (snd (cubePosition t)) = Inr (Some BLACK) \<and>
        matchedCount t = 2 \<and> status t \<noteq> Lost)"
proof -
  let ?s = "newGame sampleGrid 0"
  have v: "validGrid (grid ?s)" "validGrid (initialGrid ?s)"
    using validGrid_sampleGrid by (simp_all add: newGame_def)
  have st: "status ?s = Playing" and pos: "cubePosition ?s = (2, 2)"
    and m: "matchedCount ?s = 1"
    by (simp_all add: newGame_def START_POS_def)
  have fp: "findPath (grid ?s) 2 2 (cubeFaces ?s) = Inr (Some [Right])"
    using findPath_sample by (simp add: newGame_def)
  have ne: "[Right] \<noteq> []"
    by simp
  from findPath_replay [OF v st pos fp ne]
  obtain t where "replay ?s [Right] = Inr t"
    "tileAt (grid t) (fst (cubePosition t)) (snd (cubePosition t)) = Inr (Some BLACK)"
    "matchedCount t = matchedCount ?s + 1" "status t \<noteq> Lost"
    by blast
  then show ?thesis
    using findPath_sample m by auto
qed

theorem findPath_replay_counterexample:
  "findPath pinkStartGrid 2 2 INITIAL_CUBE_FACES = Inr (Some []) \<and>
   replay (newGame pinkStartGrid 0) [] = Inr (newGame pinkStartGrid 0) \<and>
   cubePosition (newGame pinkStartGrid 0) = (2, 2) \<and>
   tileAt (grid (newGame pinkStartGrid 0)) 2 2 = Inr (Some PINK) \<and>
   matchedCount (newGame pinkStartGrid 0) = 1"
  by (simp add: findPath_def pinkStartGrid_def INITIAL_CUBE_FACES_def newGame_def START_POS_def
      tileAt_def jsIndex_def matches_def)

section \<open>The search returns a shortest path\<close>

lemma faces_rollTo: "snd (snd (rollTo s d)) = rotateOrientation (snd (snd s)) d"
  by (cases s; cases d) simp_all

lemma reachable_rollTo:
  "reachable (snd (snd s)) \<Longrightarrow> reachable (snd (snd (rollTo s d)))"
  unfolding faces_rollTo by (rule reachable_rot)

lemma walk_reachable:
  "walk s p = Some s' \<Longrightarrow> reachable (snd (snd s)) \<Longrightarrow> reachable (snd (snd s'))"
proof (induction p arbitrary: s)
  case Nil
  then show ?case by simp
next
  case (Cons d ds)
  then have "walk (rollTo s d) ds = Some s'"
    by (simp split: if_splits)
  then show ?case
    using Cons.IH reachable_rollTo [OF Cons.prems(2)] by blast
qed

lemma keyOf_inj:
  assumes "reachable (snd (snd s))" "reachable (snd (snd t))" "keyOf s = keyOf t"
  shows "s = t"
proof -
  obtain x y c where s: "s = (x, y, c)" by (cases s)
  obtain x' y' c' where t: "t = (x', y', c')" by (cases t)
  have "top_face c = top_face c'" "front c = front c'" "x = x'" "y = y'"
    using assms(3) by (simp_all add: s t getOrientationKey_eq)
  moreover have "reachable c" "reachable c'"
    using assms(1,2) by (simp_all add: s t)
  ultimately show ?thesis
    using reachable_top_front [of c c'] by (simp add: s t)
qed

text \<open>
  The invariant of the search from \<open>s0\<close>. \<open>D\<close> holds the nodes already taken from the
  queue \<open>q\<close>, \<open>k\<close> is the length of the paths being expanded, and \<open>X\<close> the pairs of a
  node and a direction whose neighbour is still to be visited.
\<close>

definition bfsInv ::
  "Grid \<Rightarrow> CubeState \<Rightarrow> Node set \<Rightarrow> Key set \<Rightarrow> Node list \<Rightarrow> nat \<Rightarrow> (Node \<times> Direction) set \<Rightarrow> bool" where
  "bfsInv g s0 D v q k X \<longleftrightarrow>
     (\<forall>n \<in> D \<union> set q. walk s0 (path n) = Some (nodeState n) \<and> length (path n) \<le> 16 \<and>
        (\<forall>p. walk s0 p = Some (nodeState n) \<longrightarrow> length (path n) \<le> length p)) \<and>
     v = keyOf ` nodeState ` (D \<union> set q) \<and>
     (\<forall>n \<in> D. \<not> isGoal g (nodeState n) \<and> length (path n) \<le> k) \<and>
     sorted (map (\<lambda>n. length (path n)) q) \<and>
     (\<forall>n \<in> set q. k \<le> length (path n) \<and> length (path n) \<le> k + 1) \<and>
     (\<forall>p s. walk s0 p = Some s \<longrightarrow> length p \<le> k \<longrightarrow> s \<in> nodeState ` (D \<union> set q)) \<and>
     (\<forall>n \<in> D. \<forall>d. length (path n) \<le> 15 \<longrightarrow> (n, d) \<notin> X \<longrightarrow>
        inGrid (rollTo (nodeState n) d) \<longrightarrow>
        rollTo (nodeState n) d \<in> nodeState ` (D \<union> set q))"

lemma bfsInvD:
  assumes "bfsInv g s0 D v q k X"
  shows "n \<in> D \<union> set q \<Longrightarrow> walk s0 (path n) = Some (nodeState n)"
    and "n \<in> D \<union> set q \<Longrightarrow> length (path n) \<le> 16"
    and "n \<in> D \<union> set q \<Longrightarrow> walk s0 p = Some (nodeState n) \<Longrightarrow> length (path n) \<le> length p"
    and "v = keyOf ` nodeState ` (D \<union> set q)"
    and "n \<in> D \<Longrightarrow> \<not> isGoal g (nodeState n)"
    and "n \<in> D \<Longrightarrow> length (path n) \<le> k"
    and "sorted (map (\<lambda>n. length (path n)) q)"
    and "n \<in> set q \<Longrightarrow> k \<le> length (path n)"
    and "n \<in> set q \<Longrightarrow> length (path n) \<le> k + 1"
    and "walk s0 p = Some s \<Longrightarrow> length p \<le> k \<Longrightarrow> s \<in> nodeState ` (D \<union> set q)"
    and "n \<in> D \<Longrightarrow> length (path n) \<le> 15 \<Longrightarrow> (n, d) \<notin> X \<Longrightarrow>
         inGrid (rollTo (nodeState n) d) \<Longrightarrow> rollTo (nodeState n) d \<in> nodeState ` (D \<union> set q)"
  using assms unfolding bfsInv_def by blast+

lemma bfsInv_start:
  "bfsInv g (x, y, c) {} {(x, y, getOrientationKey c)}
     [\<lparr> nodeX = x, nodeY = y, faces = c, path = [] \<rparr>] 0 {}"
  unfolding bfsInv_def by (simp add: nodeState_def)

lemma bfsInvI:
  assumes "\<And>n. n \<in> D \<union> set q \<Longrightarrow> walk s0 (path n) = Some (nodeState n)"
    and "\<And>n. n \<in> D \<union> set q \<Longrightarrow> length (path n) \<le> 16"
    and "\<And>n p. n \<in> D \<union> set q \<Longrightarrow> walk s0 p = Some (nodeState n) \<Longrightarrow> length (path n) \<le> length p"
    and "v = keyOf ` nodeState ` (D \<union> set q)"
    and "\<And>n. n \<in> D \<Longrightarrow> \<not> isGoal g (nodeState n)"
    and "\<And>n. n \<in> D \<Longrightarrow> length (path n) \<le> k"
    and "sorted (map (\<lambda>n. length (path n)) q)"
    and "\<And>n. n \<in> set q \<Longrightarrow> k \<le> length (path n)"
    and "\<And>n. n \<in> set q \<Longrightarrow> length (path n) \<le> k + 1"
    and "\<And>p s. walk s0 p = Some s \<Longrightarrow> length p \<le> k \<Longrightarrow> s \<in> nodeState ` (D \<union> set q)"
    and "\<And>n d. n \<in> D \<Longrightarrow> length (path n) \<le> 15 \<Longrightarrow> (n, d) \<notin> X \<Longrightarrow>
         inGrid (rollTo (nodeState n) d) \<Longrightarrow> rollTo (nodeState n) d \<in> nodeState ` (D \<union> set q)"
  shows "bfsInv g s0 D v q k X"
  unfolding bfsInv_def
proof (intro conjI ballI allI impI)
qed (use assms in blast)+

text \<open>Taking a node that is no goal from the queue.\<close>

lemma bfsInv_pop:
  assumes inv: "bfsInv g s0 D v (cur # q) k {}"
    and lev: "length (path cur) = k" and ng: "\<not> isGoal g (nodeState cur)"
    and X: "X = {cur} \<times> UNIV \<or> (X = {} \<and> 15 < length (path cur))"
  shows "bfsInv g s0 (insert cur D) v q k X"
proof -
  note I = bfsInvD [OF inv]
  have eq: "insert cur D \<union> set q = D \<union> set (cur # q)"
    by auto
  show ?thesis
  proof (rule bfsInvI; (unfold eq)?)
    fix n assume "n \<in> D \<union> set (cur # q)"
    then show "walk s0 (path n) = Some (nodeState n)" by (rule I(1))
  next
    fix n assume "n \<in> D \<union> set (cur # q)"
    then show "length (path n) \<le> 16" by (rule I(2))
  next
    fix n p assume "n \<in> D \<union> set (cur # q)" "walk s0 p = Some (nodeState n)"
    then show "length (path n) \<le> length p" by (rule I(3))
  next
    show "v = keyOf ` nodeState ` (D \<union> set (cur # q))" by (rule I(4))
  next
    fix n assume "n \<in> insert cur D"
    then show "\<not> isGoal g (nodeState n)" using ng I(5) by auto
  next
    fix n assume "n \<in> insert cur D"
    then show "length (path n) \<le> k" using lev I(6) by auto
  next
    show "sorted (map (\<lambda>n. length (path n)) q)" using I(7) by simp
  next
    fix n assume "n \<in> set q"
    then show "k \<le> length (path n)" using I(8) [of n] by simp
  next
    fix n assume "n \<in> set q"
    then show "length (path n) \<le> k + 1" using I(9) [of n] by simp
  next
    fix p s assume "walk s0 p = Some s" "length p \<le> k"
    then show "s \<in> nodeState ` (D \<union> set (cur # q))" by (rule I(10))
  next
    fix n d
    assume n: "n \<in> insert cur D" "length (path n) \<le> 15" "(n, d) \<notin> X"
      "inGrid (rollTo (nodeState n) d)"
    have "n \<noteq> cur"
      using n(2,3) X by auto
    then have "n \<in> D"
      using n(1) by simp
    then show "rollTo (nodeState n) d \<in> nodeState ` (D \<union> set (cur # q))"
      using I(11) n(2,4) by simp
  qed
qed

text \<open>Visiting one neighbour of the node \<open>cur\<close> that is being expanded.\<close>

lemma bfsInv_visitNext:
  assumes inv: "bfsInv g s0 D v q k X"
    and cur: "cur \<in> D" "length (path cur) = k" "k \<le> 15"
    and re: "reachable (snd (snd s0))"
  shows "bfsInv g s0 D (fst (visitNext cur (v, q) d)) (snd (visitNext cur (v, q) d)) k
           (X - {(cur, d)})"
proof -
  note I = bfsInvD [OF inv]
  let ?s = "rollTo (nodeState cur) d"
  have wc: "walk s0 (path cur) = Some (nodeState cur)"
    using I(1) cur(1) by simp
  show ?thesis
  proof (cases "inGrid ?s")
    case False
    have "rollTo (nodeState n) d' \<in> nodeState ` (D \<union> set q)"
      if "n \<in> D" "length (path n) \<le> 15" "(n, d') \<notin> X - {(cur, d)}"
        "inGrid (rollTo (nodeState n) d')" for n d'
    proof -
      have "(n, d') \<noteq> (cur, d)"
        using that(4) False by auto
      then show ?thesis
        using I(11) that by simp
    qed
    then have "bfsInv g s0 D v q k (X - {(cur, d)})"
      using I(1-10) by (intro bfsInvI) blast+
    then show ?thesis
      using False by (simp add: visitNext_rollTo)
  next
    case True
    have ws: "walk s0 (path cur @ [d]) = Some ?s"
      using walk_snoc [OF wc, of d] True by simp
    have rs: "reachable (snd (snd ?s))"
      by (rule walk_reachable [OF ws re])
    show ?thesis
    proof (cases "keyOf ?s \<in> v")
      case seen: True
      then have "keyOf ?s \<in> keyOf ` nodeState ` (D \<union> set q)"
        using I(4) by simp
      then obtain n where n: "n \<in> D \<union> set q" "keyOf (nodeState n) = keyOf ?s"
        by (metis imageE)
      have "reachable (snd (snd (nodeState n)))"
        using walk_reachable [OF I(1) [OF n(1)] re] .
      then have "nodeState n = ?s"
        using keyOf_inj rs n(2) by blast
      then have here: "?s \<in> nodeState ` (D \<union> set q)"
        using n(1) by (metis imageI)
      have "rollTo (nodeState n) d' \<in> nodeState ` (D \<union> set q)"
        if "n \<in> D" "length (path n) \<le> 15" "(n, d') \<notin> X - {(cur, d)}"
          "inGrid (rollTo (nodeState n) d')" for n d'
      proof (cases "(n, d') = (cur, d)")
        case True
        then show ?thesis using here by simp
      next
        case False
        then show ?thesis using I(11) that by simp
      qed
      then have "bfsInv g s0 D v q k (X - {(cur, d)})"
        using I(1-10) by (intro bfsInvI) blast+
      then show ?thesis
        using True seen by (simp add: visitNext_rollTo)
    next
      case new: False
      let ?n = "mkNode ?s (path cur @ [d])"
      have eq: "D \<union> set (q @ [?n]) = insert ?n (D \<union> set q)"
        by auto
      have "bfsInv g s0 D (insert (keyOf ?s) v) (q @ [?n]) k (X - {(cur, d)})"
      proof (rule bfsInvI; (unfold eq)?)
        fix n assume "n \<in> insert ?n (D \<union> set q)"
        then show "walk s0 (path n) = Some (nodeState n)"
          using ws I(1) by auto
      next
        fix n assume "n \<in> insert ?n (D \<union> set q)"
        then show "length (path n) \<le> 16"
          using cur(2,3) I(2) by auto
      next
        fix n p assume n: "n \<in> insert ?n (D \<union> set q)" "walk s0 p = Some (nodeState n)"
        show "length (path n) \<le> length p"
        proof (cases "n = ?n")
          case True
          have "\<not> length p \<le> k"
          proof
            assume "length p \<le> k"
            then have "?s \<in> nodeState ` (D \<union> set q)"
              using I(10) [of p ?s] n(2) True by simp
            then show False
              using new unfolding I(4) by blast
          qed
          then show ?thesis
            using True cur(2) by simp
        next
          case False
          then show ?thesis using n I(3) by simp
        qed
      next
        show "insert (keyOf ?s) v = keyOf ` nodeState ` insert ?n (D \<union> set q)"
          unfolding I(4) by simp
      next
        fix n assume "n \<in> D"
        then show "\<not> isGoal g (nodeState n)" by (rule I(5))
      next
        fix n assume "n \<in> D"
        then show "length (path n) \<le> k" by (rule I(6))
      next
        have "\<forall>m \<in> set (map (\<lambda>n. length (path n)) q). m \<le> length (path ?n)"
          using I(9) cur(2) by auto
        then show "sorted (map (\<lambda>n. length (path n)) (q @ [?n]))"
          using I(7) by (simp add: sorted_append)
      next
        fix n assume "n \<in> set (q @ [?n])"
        then show "k \<le> length (path n)"
          using I(8) cur(2) by auto
      next
        fix n assume "n \<in> set (q @ [?n])"
        then show "length (path n) \<le> k + 1"
          using I(9) cur(2) by auto
      next
        fix p s assume "walk s0 p = Some s" "length p \<le> k"
        then show "s \<in> nodeState ` insert ?n (D \<union> set q)"
          using I(10) by blast
      next
        fix n d'
        assume n: "n \<in> D" "length (path n) \<le> 15" "(n, d') \<notin> X - {(cur, d)}"
          "inGrid (rollTo (nodeState n) d')"
        show "rollTo (nodeState n) d' \<in> nodeState ` insert ?n (D \<union> set q)"
        proof (cases "(n, d') = (cur, d)")
          case True
          then show ?thesis by simp
        next
          case False
          then have "rollTo (nodeState n) d' \<in> nodeState ` (D \<union> set q)"
            using I(11) n by simp
          then show ?thesis by blast
        qed
      qed
      then show ?thesis
        using True new by (simp add: visitNext_rollTo)
    qed
  qed
qed

lemma bfsInv_foldl:
  assumes cur: "cur \<in> D" "length (path cur) = k" "k \<le> 15"
    and re: "reachable (snd (snd s0))"
  shows "bfsInv g s0 D (fst vq) (snd vq) k X \<Longrightarrow>
         bfsInv g s0 D (fst (foldl (visitNext cur) vq ds)) (snd (foldl (visitNext cur) vq ds)) k
           (X - {cur} \<times> set ds)"
proof (induction ds arbitrary: vq X)
  case Nil
  then show ?case by simp
next
  case (Cons d ds)
  have "bfsInv g s0 D (fst (visitNext cur (fst vq, snd vq) d))
          (snd (visitNext cur (fst vq, snd vq) d)) k (X - {(cur, d)})"
    by (rule bfsInv_visitNext [OF Cons.prems cur re])
  then have "bfsInv g s0 D (fst (foldl (visitNext cur) (visitNext cur vq d) ds))
          (snd (foldl (visitNext cur) (visitNext cur vq d) ds)) k
          (X - {(cur, d)} - {cur} \<times> set ds)"
    using Cons.IH [of "visitNext cur vq d" "X - {(cur, d)}"] by simp
  moreover have "X - {(cur, d)} - {cur} \<times> set ds = X - {cur} \<times> set (d # ds)"
    by auto
  ultimately show ?case
    by simp
qed

text \<open>
  When the first node of the queue has a path one move longer than the nodes expanded so
  far, every state within that many moves of the start has been discovered.
\<close>

lemma bfsInv_shift:
  assumes inv: "bfsInv g s0 D v q k {}" and ne: "q \<noteq> []"
  shows "bfsInv g s0 D v q (length (path (hd q))) {}"
proof (cases "length (path (hd q)) = k")
  case True
  then show ?thesis using inv by simp
next
  case False
  note I = bfsInvD [OF inv]
  have hq: "hd q \<in> set q"
    using ne by simp
  have k1: "length (path (hd q)) = k + 1"
    using False I(8) [OF hq] I(9) [OF hq] by simp
  have least: "k + 1 \<le> length (path n)" if "n \<in> set q" for n
  proof -
    obtain h t where q: "q = h # t"
      using ne by (cases q) auto
    have "length (path h) \<le> length (path n)"
      using I(7) that unfolding q by auto
    then show ?thesis
      using k1 q by simp
  qed
  have k15: "k \<le> 15"
    using I(2) [of "hd q"] hq k1 by simp
  have found: "s \<in> nodeState ` (D \<union> set q)"
    if w: "walk s0 p = Some s" and len: "length p \<le> k + 1" for p s
  proof (cases "length p \<le> k")
    case True
    then show ?thesis using I(10) w by simp
  next
    case False
    then have lp: "length p = k + 1"
      using len by simp
    then have p: "p = butlast p @ [last p]"
      by (cases p rule: rev_cases) simp_all
    obtain s1 where s1: "walk s0 (butlast p) = Some s1" "walk s1 [last p] = Some s"
      using w p by (metis (no_types, lifting) walk_append option.case_eq_if option.collapse option.distinct(1))
    then have step: "inGrid (rollTo s1 (last p))" "s = rollTo s1 (last p)"
      by (simp_all split: if_splits)
    have "s1 \<in> nodeState ` (D \<union> set q)"
      using I(10) [OF s1(1)] lp by simp
    then obtain n1 where n1: "n1 \<in> D \<union> set q" "nodeState n1 = s1"
      by (metis imageE)
    have l1: "length (path n1) \<le> k"
      using I(3) [OF n1(1), of "butlast p"] s1(1) n1(2) lp by simp
    then have "n1 \<notin> set q"
      using least [of n1] by auto
    then have "n1 \<in> D"
      using n1(1) by simp
    then have "rollTo (nodeState n1) (last p) \<in> nodeState ` (D \<union> set q)"
      using I(11) [of n1 "last p"] l1 k15 step(1) n1(2) by simp
    then show ?thesis
      using step(2) n1(2) by simp
  qed
  show ?thesis
    unfolding k1
  proof (rule bfsInvI)
    fix n assume "n \<in> D"
    then show "length (path n) \<le> k + 1"
      using I(6) [of n] by simp
  next
    fix n assume "n \<in> set q"
    then show "k + 1 \<le> length (path n)" by (rule least)
  next
    fix n assume "n \<in> set q"
    then show "length (path n) \<le> k + 1 + 1"
      using I(9) [of n] by simp
  next
    fix p s assume "walk s0 p = Some s" "length p \<le> k + 1"
    then show "s \<in> nodeState ` (D \<union> set q)" by (rule found)
  qed (use I in blast)+
qed

lemma bfsInv_goal:
  assumes inv: "bfsInv g s0 D v (cur # q) (length (path cur)) X"
    and w: "walk s0 p = Some s" and goal: "isGoal g s"
  shows "length (path cur) \<le> length p"
proof (rule ccontr)
  note I = bfsInvD [OF inv]
  assume "\<not> length (path cur) \<le> length p"
  then have less: "length p < length (path cur)"
    by simp
  then have "s \<in> nodeState ` (D \<union> set (cur # q))"
    using I(10) [OF w] by simp
  then obtain n where n: "n \<in> D \<union> set (cur # q)" "nodeState n = s"
    by (metis imageE)
  have "length (path n) \<le> length p"
    using I(3) [OF n(1)] w n(2) by simp
  then have "n \<notin> set (cur # q)"
    using I(8) [of n] less by auto
  then have "n \<in> D"
    using n(1) by simp
  then show False
    using I(5) [of n] goal n(2) by simp
qed

lemma findPathLoop_shortest:
  assumes re: "reachable (snd (snd s0))" and w: "walk s0 p' = Some s"
  shows "isGoal g s \<Longrightarrow>
         snd vq \<noteq> [] \<longrightarrow> bfsInv g s0 D (fst vq) (snd vq) (length (path (hd (snd vq)))) {} \<Longrightarrow>
         findPathLoop g vq = Inr (Some p) \<Longrightarrow> length p \<le> length p'"
proof (induction g vq arbitrary: D rule: findPathLoop.induct)
  case (1 g visited)
  then show ?case by simp
next
  case (2 g visited cur queue)
  note goal = "2.prems"(1) and res = "2.prems"(3)
  have inv: "bfsInv g s0 D visited (cur # queue) (length (path cur)) {}"
    using "2.prems"(2) by simp
  from res obtain tile where tile: "tileAt g (nodeX cur) (nodeY cur) = Inr tile"
    by (auto split: sum.splits)
  show ?case
  proof (cases "matches tile (bottom (faces cur))")
    case True
    then have "p = path cur"
      using res tile by simp
    then show ?thesis
      using bfsInv_goal [OF inv w goal] by simp
  next
    case False
    then have ng: "\<not> isGoal g (nodeState cur)"
      using tile by (simp add: nodeState_def)
    show ?thesis
    proof (cases "length (path cur) > 15")
      case True
      have "bfsInv g s0 (insert cur D) visited queue (length (path cur)) {}"
        using True by (intro bfsInv_pop [OF inv _ ng]) simp_all
      then have "snd (visited, queue) \<noteq> [] \<longrightarrow>
          bfsInv g s0 (insert cur D) (fst (visited, queue)) (snd (visited, queue))
            (length (path (hd (snd (visited, queue))))) {}"
        using bfsInv_shift by simp
      moreover have "findPathLoop g (visited, queue) = Inr (Some p)"
        using res tile False True by simp
      ultimately show ?thesis
        using "2.IH"(1) [OF tile False True goal, of "insert cur D"] by blast
    next
      case short: False
      let ?r = "foldl (visitNext cur) (visited, queue) [Up, Down, Left, Right]"
      have "bfsInv g s0 (insert cur D) visited queue (length (path cur)) ({cur} \<times> UNIV)"
        by (intro bfsInv_pop [OF inv _ ng]) simp_all
      then have full: "bfsInv g s0 (insert cur D) (fst ?r) (snd ?r) (length (path cur))
          ({cur} \<times> UNIV - {cur} \<times> set [Up, Down, Left, Right])"
        using short re by (intro bfsInv_foldl) simp_all
      have "d \<in> set [Up, Down, Left, Right]" for d
        by (cases d) simp_all
      then have "{cur} \<times> UNIV - {cur} \<times> set [Up, Down, Left, Right] = {}"
        by blast
      then have "bfsInv g s0 (insert cur D) (fst ?r) (snd ?r) (length (path cur)) {}"
        using full by (simp only:)
      then have "snd ?r \<noteq> [] \<longrightarrow>
          bfsInv g s0 (insert cur D) (fst ?r) (snd ?r) (length (path (hd (snd ?r)))) {}"
        using bfsInv_shift by blast
      moreover have "findPathLoop g ?r = Inr (Some p)"
        using res tile False short by simp
      ultimately show ?thesis
        using "2.IH"(2) [OF tile False short goal, of "insert cur D"] by blast
    qed
  qed
qed

text \<open>
  Claim C2: for every grid, every start position and every orientation of the cube, the
  path that \<open>findPath\<close> returns leads to a goal state, and no sequence of directions that
  stays on the grid and leads from the start to a goal state is shorter. The orientations
  of the cube are those reachable from \<open>INITIAL_CUBE_FACES\<close>: the program builds the faces
  it searches from out of \<open>INITIAL_CUBE_FACES\<close> and \<open>rotateOrientation\<close> only.
\<close>

theorem findPath_shortest:
  assumes "reachable c" "findPath g x y c = Inr (Some p)"
    and "walk (x, y, c) p' = Some s" "isGoal g s"
  shows "(\<exists>t. walk (x, y, c) p = Some t \<and> isGoal g t) \<and> length p \<le> length p'"
proof
  show "\<exists>t. walk (x, y, c) p = Some t \<and> isGoal g t"
    using findPath_sound [OF assms(2)] by blast
next
  have re: "reachable (snd (snd (x, y, c)))"
    using assms(1) by simp
  let ?vq = "({(x, y, getOrientationKey c)}, [\<lparr> nodeX = x, nodeY = y, faces = c, path = [] \<rparr>])"
  have "snd ?vq \<noteq> [] \<longrightarrow>
          bfsInv g (x, y, c) {} (fst ?vq) (snd ?vq) (length (path (hd (snd ?vq)))) {}"
    using bfsInv_start [of g x y c] by simp
  moreover have "findPathLoop g ?vq = Inr (Some p)"
    using assms(2) by (simp add: findPath_def)
  ultimately show "length p \<le> length p'"
    by (rule findPathLoop_shortest [OF re assms(3,4)])
qed

theorem findPath_shortest_witness:
  "reachable INITIAL_CUBE_FACES \<and>
   findPath sampleGrid 2 2 INITIAL_CUBE_FACES = Inr (Some [Right]) \<and>
   walk (2, 2, INITIAL_CUBE_FACES) [Left, Right, Right]
     = Some (3, 2, rotateOrientation INITIAL_CUBE_FACES Right) \<and>
   isGoal sampleGrid (3, 2, rotateOrientation INITIAL_CUBE_FACES Right) \<and>
   (\<exists>t. walk (2, 2, INITIAL_CUBE_FACES) [Right] = Some t \<and> isGoal sampleGrid t) \<and>
   length [Right] \<le> length [Left, Right, Right]"
proof -
  have w: "walk (2, 2, INITIAL_CUBE_FACES) [Left, Right, Right]
             = Some (3, 2, rotateOrientation INITIAL_CUBE_FACES Right)"
    by (simp add: GRID_SIZE_def INITIAL_CUBE_FACES_def)
  have goal: "isGoal sampleGrid (3, 2, rotateOrientation INITIAL_CUBE_FACES Right)"
    by (simp add: sampleGrid_def INITIAL_CUBE_FACES_def tileAt_def jsIndex_def matches_def)
  show ?thesis
    using findPath_shortest [OF reachable_init findPath_sample w goal] reachable_init
      findPath_sample w goal
    by blast
qed

text \<open>
  Why the orientation must be one of the cube's: a record with white on three faces is no
  orientation that the program can reach, its rotations are not told apart by top and
  front, and on a board with one tile left the search from it returns four moves where
  two reach the tile.
\<close>

definition lastTileGrid :: Grid where
  "lastTileGrid =
     [[BLACK, BLACK, BLACK, BLACK, BLACK],
      [BLACK, GREEN, BLACK, BLACK, BLACK],
      [BLACK, BLACK, GRAY, BLACK, BLACK],
      [BLACK, BLACK, BLACK, BLACK, BLACK],
      [BLACK, BLACK, BLACK, BLACK, BLACK]]"

definition repaintedCube :: CubeOrientation where
  "repaintedCube =
     \<lparr> top_face = WHITE, bottom = PINK, front = GREEN, back_face = WHITE,
       left = WHITE, right = RED \<rparr>"

lemma findPath_repainted:
  "findPath lastTileGrid 0 0 repaintedCube = Inr (Some [Up, Up, Right, Down])"
  by (simp add: findPath_def lastTileGrid_def repaintedCube_def visitNext_def
      getOrientationKey_def GRID_SIZE_def tileAt_def jsIndex_def matches_def Let_def)

lemma repaintedCube_unreachable: "\<not> reachable repaintedCube"
proof
  assume "reachable repaintedCube"
  then have "repaintedCube \<in> set orbit"
    by (rule reachable_orbit)
  then show False
    by (simp add: orbit_def repaintedCube_def INITIAL_CUBE_FACES_def)
qed

lemma findPath_repainted_longer:
  "findPath lastTileGrid 0 0 repaintedCube = Inr (Some [Up, Up, Right, Down]) \<and>
   walk (0, 0, repaintedCube) [Right, Up] = Some (1, 1, rotateOrientation (rotateOrientation repaintedCube Right) Up) \<and>
   isGoal lastTileGrid (1, 1, rotateOrientation (rotateOrientation repaintedCube Right) Up) \<and>
   length [Right, Up] < length [Up, Up, Right, Down]"
  using findPath_repainted
  by (simp add: lastTileGrid_def repaintedCube_def GRID_SIZE_def tileAt_def jsIndex_def matches_def)

end
